theory Spec2Isabelle
  imports Main "HOL-Library.Word" "HOL-Library.Char_ord" "HOL-Library.List_Lexorder"
begin

section \<open>Errors raised by the data pipeline\<close>

text \<open>
  Every exception of \<^verbatim>\<open>biggan/data.py\<close> that a claim depends on is a value of
  this type; a function that can raise returns \<open>error + 'a\<close> with \<open>Inl\<close> for the
  exception.
\<close>

datatype error =
    ValueError int nat              \<comment> \<open>batch size not divisible: (batch size, number of GPUs)\<close>
  | IOError string                  \<comment> \<open>no image files found in the directory\<close>
  | ImageTooSmall "nat \<times> nat"       \<comment> \<open>raised with \<^verbatim>\<open>size\<close> = (height, width)\<close>
  | AttributeError                  \<comment> \<open>\<^verbatim>\<open>None.shape\<close>: \<^verbatim>\<open>cv2.imread\<close> gave \<^verbatim>\<open>None\<close>\<close>
  | IndexError nat                  \<comment> \<open>array index out of bounds\<close>
  | BroadcastError                  \<comment> \<open>assignment of an array of the wrong shape\<close>
  | FileNotFoundError string        \<comment> \<open>a path that cannot be opened or removed\<close>
  | Cv2Error                        \<comment> \<open>\<^verbatim>\<open>cv2.error\<close>: an assertion of OpenCV failed\<close>

section \<open>Per-replica batch size\<close>

text \<open>
  \<^verbatim>\<open>get_per_replica_batch_size(global_batch_size)\<close>. The device query
  \<^verbatim>\<open>get_gpus()\<close> is the first argument: the list of GPU names it returns.
  Python's \<^verbatim>\<open>%\<close> and \<^verbatim>\<open>//\<close> on integers round towards minus infinity, as
  \<open>mod\<close> and \<open>div\<close> on \<open>int\<close> do.
\<close>

definition get_per_replica_batch_size :: "string list \<Rightarrow> int \<Rightarrow> error + int" where
  "get_per_replica_batch_size gpus global_batch_size =
     (let n_gpus = length gpus in
      if n_gpus = 0 then Inr global_batch_size
      else if global_batch_size mod int n_gpus \<noteq> 0
        then Inl (ValueError global_batch_size n_gpus)
      else Inr (global_batch_size div int n_gpus))"

section \<open>Images and the crop of \<^verbatim>\<open>load_crop_resize_img\<close>\<close>

text \<open>
  A decoded image is the array \<^verbatim>\<open>cv2.imread\<close> returns: rows of pixels, each pixel
  its channel values, each value an unsigned byte (numpy shape \<open>(height, width, 3)\<close>).
\<close>

type_synonym pixel = "8 word list"
type_synonym image = "pixel list list"

definition shape2 :: "image \<Rightarrow> nat \<times> nat" where
  \<comment> \<open>\<^verbatim>\<open>image.shape[:2]\<close>\<close>
  "shape2 img = (length img, (case img of [] \<Rightarrow> 0 | row # _ \<Rightarrow> length row))"

definition rect :: "nat \<Rightarrow> nat \<Rightarrow> nat \<Rightarrow> image \<Rightarrow> bool" where
  \<comment> \<open>the nested list is a rectangular array of shape \<open>(h, w, c)\<close>\<close>
  "rect h w c img \<longleftrightarrow>
     length img = h \<and> list_all (\<lambda>row. length row = w \<and> list_all (\<lambda>p. length p = c) row) img"

definition argmin2 :: "nat \<times> nat \<Rightarrow> nat" where
  \<comment> \<open>\<^verbatim>\<open>np.argmin\<close> of a pair: the first index of the least entry\<close>
  "argmin2 sz = (if fst sz \<le> snd sz then 0 else 1)"

definition size_at :: "nat \<times> nat \<Rightarrow> nat \<Rightarrow> nat" where
  \<comment> \<open>\<^verbatim>\<open>size[j]\<close> for \<open>j\<close> in \<open>{0, 1}\<close>\<close>
  "size_at sz j = (if j = 0 then fst sz else snd sz)"

text \<open>
  A slice \<^verbatim>\<open>slice(start, stop, None)\<close>: \<open>None\<close> when both bounds are \<^verbatim>\<open>None\<close>.
  The bounds the code builds satisfy \<open>0 \<le> start \<le> stop\<close>, where Python's slice is
  \<open>take (stop - start) (drop start xs)\<close>.
\<close>

fun py_slice :: "(nat \<times> nat) option \<Rightarrow> 'a list \<Rightarrow> 'a list" where
  "py_slice None xs = xs"
| "py_slice (Some (start, stop)) xs = take (stop - start) (drop start xs)"

definition crop_slice :: "nat \<times> nat \<Rightarrow> nat \<Rightarrow> (nat \<times> nat) option" where
  \<comment> \<open>the body of the loop \<^verbatim>\<open>for j, dim in enumerate(size)\<close>\<close>
  "crop_slice sz j =
     (let min_ax = argmin2 sz in
      if j = min_ax then None
      else (let start = (size_at sz j - size_at sz min_ax) div 2;
                stop = start + size_at sz min_ax
            in Some (start, stop)))"

definition apply_crop :: "nat \<times> nat \<Rightarrow> image \<Rightarrow> image" where
  \<comment> \<open>\<^verbatim>\<open>image[crop]\<close> with \<^verbatim>\<open>crop = (rows, columns, slice(None, None, -1))\<close>\<close>
  "apply_crop sz img =
     map (\<lambda>row. map rev (py_slice (crop_slice sz 1) row)) (py_slice (crop_slice sz 0) img)"

text \<open>
  \<^verbatim>\<open>cv2.resize(src, dsize, interpolation=...)\<close>. The interpolation is one of OpenCV's
  flags. What OpenCV computes is the argument \<open>resize\<close>, a function of the source, of
  \<open>dsize = (width, height)\<close> and of the flag; the call itself raises \<^verbatim>\<open>cv2.error\<close> on
  an empty source or an empty \<open>dsize\<close> (OpenCV asserts both non-empty).
\<close>

datatype interpolation = INTER_NEAREST | INTER_LINEAR | INTER_CUBIC | INTER_AREA | INTER_LANCZOS4

type_synonym resizer = "image \<Rightarrow> nat \<times> nat \<Rightarrow> interpolation \<Rightarrow> image"

definition cv2_resize :: "resizer \<Rightarrow> image \<Rightarrow> nat \<times> nat \<Rightarrow> interpolation \<Rightarrow> error + image" where
  "cv2_resize resize src dsize flag =
     (if fst (shape2 src) = 0 \<or> snd (shape2 src) = 0 \<or> fst dsize = 0 \<or> snd dsize = 0
      then Inl Cv2Error
      else Inr (resize src dsize flag))"

text \<open>
  \<^verbatim>\<open>load_crop_resize_img(filename, image_size)\<close>. \<open>imread\<close> gives the decoded image of
  a path, or \<open>None\<close> for a file it cannot read (as \<^verbatim>\<open>cv2.imread\<close> does, without
  raising); reading \<^verbatim>\<open>.shape\<close> of \<^verbatim>\<open>None\<close> then raises \<^verbatim>\<open>AttributeError\<close>. The resize
  is asked for with \<^verbatim>\<open>interpolation=cv2.INTER_AREA\<close>.
\<close>

definition load_crop_resize_img ::
  "(string \<Rightarrow> image option) \<Rightarrow> resizer \<Rightarrow> string \<Rightarrow> nat \<Rightarrow> error + image"
where
  "load_crop_resize_img imread resize filename image_size =
     (case imread filename of
        None \<Rightarrow> Inl AttributeError
      | Some img \<Rightarrow>
          (let sz = shape2 img; min_ax = argmin2 sz in
           if size_at sz min_ax < image_size then Inl (ImageTooSmall sz)
           else cv2_resize resize (apply_crop sz img) (image_size, image_size) INTER_AREA))"

text \<open>
  The spec's words for the crop: a centered square whose side is the shorter dimension,
  cut along the longer axis at offset \<open>(longer - shorter) div 2\<close>, the shorter axis kept
  whole, the channel order reversed. Written from the spec, to be compared with
  \<open>apply_crop\<close>, which is written from the code.
\<close>

definition centered_square_spec :: "image \<Rightarrow> image" where
  "centered_square_spec img =
     (let h = fst (shape2 img); w = snd (shape2 img);
          shorter = min h w; longer = max h w;
          offset = (longer - shorter) div 2
      in map (map rev)
           (if w < h then take shorter (drop offset img)
            else map (\<lambda>row. take shorter (drop offset row)) img))"

definition resizes_to_dsize :: "resizer \<Rightarrow> bool" where
  \<comment> \<open>what \<^verbatim>\<open>cv2.resize\<close> promises of its output shape, whatever the interpolation:
      \<open>dsize = (width, height)\<close>, the number of channels kept\<close>
  "resizes_to_dsize resize \<longleftrightarrow>
     (\<forall>src h0 w0 c w h flag. rect h0 w0 c src \<and> 0 < h0 \<and> 0 < w0 \<and> 0 < h \<and> 0 < w
        \<longrightarrow> rect h w c (resize src (w, h) flag))"

text \<open>
  A resize for the examples. With \<open>INTER_AREA\<close> each output value is the mean of the
  block of source values it covers (the area average on whole-number scale factors);
  with any other flag it is the first value of that block. It instantiates the
  \<open>resize\<close> argument where a concrete run is evaluated; no theorem depends on it.
\<close>

definition block :: "nat \<Rightarrow> nat \<Rightarrow> nat \<Rightarrow> nat list" where
  \<comment> \<open>the source indices output index \<open>i\<close> of \<open>n\<close> covers in a source of extent \<open>n0\<close>\<close>
  "block n0 n i = [i * n0 div n ..< max (Suc (i * n0 div n)) (Suc i * n0 div n)]"

definition channels :: "image \<Rightarrow> nat" where
  "channels src = (case src of [] \<Rightarrow> 0 | row # _ \<Rightarrow> (case row of [] \<Rightarrow> 0 | p # _ \<Rightarrow> length p))"

definition box_resize :: "image \<Rightarrow> nat \<times> nat \<Rightarrow> image" where
  "box_resize src dsize =
     (let h0 = fst (shape2 src); w0 = snd (shape2 src)
      in map (\<lambda>i. map (\<lambda>j. map (\<lambda>k.
               (let vals = concat (map (\<lambda>y. map (\<lambda>x. unat (src ! y ! x ! k)) (block w0 (fst dsize) j))
                                       (block h0 (snd dsize) i))
                in (of_nat (sum_list vals div length vals) :: 8 word)))
             [0..<channels src]) [0..<fst dsize]) [0..<snd dsize])"

definition nearest_resize :: "image \<Rightarrow> nat \<times> nat \<Rightarrow> image" where
  "nearest_resize src dsize =
     (let h0 = fst (shape2 src); w0 = snd (shape2 src)
      in map (\<lambda>i. map (\<lambda>j. map (\<lambda>k. src ! (i * h0 div snd dsize) ! (j * w0 div fst dsize) ! k)
             [0..<channels src]) [0..<fst dsize]) [0..<snd dsize])"

definition ex_resize :: resizer where
  "ex_resize src dsize flag =
     (if flag = INTER_AREA then box_resize src dsize else nearest_resize src dsize)"

section \<open>File discovery\<close>

text \<open>
  \<^verbatim>\<open>glob_image_files(data_dir)\<close>. The directory tree is read only through
  \<^verbatim>\<open>glob.glob\<close>, the argument \<open>glob\<close>: the paths that match a pattern, in any order.
  \<^verbatim>\<open>sorted\<close> on strings is the lexicographic order on code points, here \<open>sort\<close> on
  \<open>char list\<close>.
\<close>

definition path_join :: "string \<Rightarrow> string \<Rightarrow> string" where
  \<comment> \<open>\<^verbatim>\<open>os.path.join(a, b)\<close> for a relative \<open>b\<close>\<close>
  "path_join a b = (if a = [] \<or> last a = CHR ''/'' then a @ b else a @ ''/'' @ b)"

definition upper_char :: "char \<Rightarrow> char" where
  "upper_char c =
     (if 97 \<le> (of_char c :: nat) \<and> (of_char c :: nat) \<le> 122
      then char_of ((of_char c :: nat) - 32) else c)"

definition lower_char :: "char \<Rightarrow> char" where
  "lower_char c =
     (if 65 \<le> (of_char c :: nat) \<and> (of_char c :: nat) \<le> 90
      then char_of ((of_char c :: nat) + 32) else c)"

definition upper :: "string \<Rightarrow> string" where
  "upper s = map upper_char s"

definition lower :: "string \<Rightarrow> string" where
  "lower s = map lower_char s"

definition image_groups :: "(string \<Rightarrow> string list) \<Rightarrow> string \<Rightarrow> string list list" where
  \<comment> \<open>the list \<^verbatim>\<open>groups\<close>: one sorted group for each subdirectory and each spelling of
      each extension, in that nesting order, the empty groups dropped\<close>
  "image_groups glob data_dir =
     filter (\<lambda>group. group \<noteq> [])
       (concat (map (\<lambda>subdir.
          concat (map (\<lambda>extension.
            map (\<lambda>extension. sort (glob (path_join subdir (''*.'' @ extension))))
              [upper extension, lower extension])
            [''jpg'', ''jpeg'', ''png'']))
          (sort (glob (path_join data_dir ''*/'')))))"

definition glob_image_files :: "(string \<Rightarrow> string list) \<Rightarrow> string \<Rightarrow> string list \<times> nat list" where
  "glob_image_files glob data_dir =
     (let groups = image_groups glob data_dir;
          files = concat groups;
          labels = concat (map (\<lambda>(i, group). map (\<lambda>_. i) group) (enumerate 0 groups))
      in (files, labels))"

section \<open>Memory-mapped \<^verbatim>\<open>.npy\<close> files\<close>

text \<open>
  A file is its bytes. A \<^verbatim>\<open>numpy.memmap\<close> is a view of a file: the name of the file,
  the offset of the array's first byte, the shape and the element type. Reading and
  writing an entry of the array reads and writes the bytes of the file, so the file is
  always what a flush would make it. An entry is one index of the first axis.
\<close>

type_synonym byte = "8 word"

record memmap =
  mm_filename :: string
  mm_offset :: nat
  mm_shape :: "nat list"
  mm_descr :: string       \<comment> \<open>\<^verbatim>\<open>dtype_to_descr(dtype)\<close>: \<^verbatim>\<open>'|u1'\<close>, \<^verbatim>\<open>'<i4'\<close>\<close>
  mm_itemsize :: nat

definition entry_bytes :: "memmap \<Rightarrow> nat" where
  "entry_bytes m = mm_itemsize m * prod_list (tl (mm_shape m))"

definition mm_get :: "memmap \<Rightarrow> byte list \<Rightarrow> nat \<Rightarrow> byte list" where
  \<comment> \<open>the bytes of \<^verbatim>\<open>m[i]\<close>\<close>
  "mm_get m content i = take (entry_bytes m) (drop (mm_offset m + i * entry_bytes m) content)"

definition splice :: "'a list \<Rightarrow> nat \<Rightarrow> 'a list \<Rightarrow> 'a list" where
  \<comment> \<open>overwrite \<open>xs\<close> from position \<open>pos\<close> with \<open>ys\<close>\<close>
  "splice xs pos ys = take pos xs @ ys @ drop (pos + length ys) xs"

definition mm_set :: "memmap \<Rightarrow> byte list \<Rightarrow> nat \<Rightarrow> byte list \<Rightarrow> byte list" where
  \<comment> \<open>the file after \<^verbatim>\<open>m[i] = value\<close>, for a value of one entry's size\<close>
  "mm_set m content i bs = splice content (mm_offset m + i * entry_bytes m) bs"

text \<open>
  The header of a \<^verbatim>\<open>.npy\<close> file is written by numpy's \<^verbatim>\<open>_write_array_header\<close>, the
  argument \<open>hdr\<close> throughout: the bytes it writes for a type descriptor and a shape
  (\<^verbatim>\<open>fortran_order\<close> is always \<^verbatim>\<open>False\<close> here).
\<close>

type_synonym header_writer = "string \<Rightarrow> nat list \<Rightarrow> byte list"

definition open_memmap :: "header_writer \<Rightarrow> string \<Rightarrow> nat list \<Rightarrow> string \<Rightarrow> nat \<Rightarrow> memmap \<times> byte list" where
  \<comment> \<open>\<^verbatim>\<open>open_memmap(filename, shape, dtype, mode="w+")\<close>: the view and the new file, the
      header followed by zeros\<close>
  "open_memmap hdr filename shape descr itemsize =
     (let header = hdr descr shape in
      (\<lparr>mm_filename = filename, mm_offset = length header, mm_shape = shape,
        mm_descr = descr, mm_itemsize = itemsize\<rparr>,
       header @ replicate (itemsize * prod_list shape) 0))"

text \<open>
  \<^verbatim>\<open>resize_npy_file(memmap, new_shape)\<close> on a file system \<open>fs\<close>. Opening the file
  \<^verbatim>\<open>"rb+"\<close> and writing the header overwrites the file's first bytes and leaves the
  rest; \<^verbatim>\<open>fp.tell()\<close> is then the header's length. \<^verbatim>\<open>np.memmap(..., mode="r+")\<close>
  maps the file as it is, after extending it with zeros when it is shorter than
  \<open>offset + size\<close>; it never shortens a file. The two \<^verbatim>\<open>flush\<close> calls change nothing in
  a model where the file holds what was written.
\<close>

definition resize_npy_file ::
  "header_writer \<Rightarrow> (string \<rightharpoonup> byte list) \<Rightarrow> memmap \<Rightarrow> nat list
     \<Rightarrow> error + (string \<rightharpoonup> byte list) \<times> memmap"
where
  "resize_npy_file hdr fs memmap new_shape =
     (case fs (mm_filename memmap) of
        None \<Rightarrow> Inl (FileNotFoundError (mm_filename memmap))
      | Some content \<Rightarrow>
          (let header = hdr (mm_descr memmap) new_shape;
               written = header @ drop (length header) content;
               offset = length header;
               bytes = offset + mm_itemsize memmap * prod_list new_shape;
               mapped = (if length written < bytes
                         then written @ replicate (bytes - length written) 0 else written);
               output = memmap\<lparr>mm_shape := new_shape, mm_offset := offset\<rparr>
           in Inr (fs(mm_filename memmap \<mapsto> mapped), output)))"

definition write_array :: "header_writer \<Rightarrow> (string \<rightharpoonup> byte list) \<Rightarrow> memmap \<Rightarrow> byte list" where
  \<comment> \<open>\<^verbatim>\<open>write_array(fid, val)\<close>: the header of the array's shape, then its bytes\<close>
  "write_array hdr fs val =
     hdr (mm_descr val) (mm_shape val)
       @ take (mm_itemsize val * prod_list (mm_shape val))
           (drop (mm_offset val) (case fs (mm_filename val) of None \<Rightarrow> [] | Some c \<Rightarrow> c))"

subsection \<open>The header of format version 1.0\<close>

text \<open>
  The header \<^verbatim>\<open>_write_array_header\<close> writes in format version 1.0: the magic string,
  the version, the length of the rest as two little-endian bytes, the dictionary as
  text, then spaces and a newline so that the whole is a multiple of 64 bytes. It
  instantiates \<open>hdr\<close> where a concrete run is evaluated.
\<close>

fun str_nat :: "nat \<Rightarrow> string" where
  "str_nat n = (if n < 10 then [char_of (48 + n)] else str_nat (n div 10) @ [char_of (48 + n mod 10)])"

declare str_nat.simps [simp del]

fun join_comma :: "string list \<Rightarrow> string" where
  "join_comma [] = []"
| "join_comma [x] = x"
| "join_comma (x # y # ys) = x @ '', '' @ join_comma (y # ys)"

definition repr_tuple :: "nat list \<Rightarrow> string" where
  "repr_tuple shape =
     (case shape of
        [n] \<Rightarrow> ''('' @ str_nat n @ '',)''
      | _ \<Rightarrow> ''('' @ join_comma (map str_nat shape) @ '')'')"

definition header_dict :: "string \<Rightarrow> nat list \<Rightarrow> string" where
  "header_dict descr shape =
     ''{'' @ [CHR 0x27] @ ''descr'' @ [CHR 0x27] @ '': '' @ [CHR 0x27] @ descr @ [CHR 0x27] @ '', ''
       @ [CHR 0x27] @ ''fortran_order'' @ [CHR 0x27] @ '': False, ''
       @ [CHR 0x27] @ ''shape'' @ [CHR 0x27] @ '': '' @ repr_tuple shape @ '', }''"

definition npy_header :: header_writer where
  "npy_header descr shape =
     (let header = header_dict descr shape;
          hlen = length header + 1;
          padlen = 64 - ((8 + 2 + hlen) mod 64)
      in [0x93] @ map of_char ''NUMPY'' @ [1, 0]
         @ [of_nat ((hlen + padlen) mod 256), of_nat ((hlen + padlen) div 256)]
         @ map of_char header @ replicate padlen 0x20 @ [0x0A])"

section \<open>The workers of \<^verbatim>\<open>create_dataset\<close>\<close>

text \<open>
  What a run reads from outside the program: the directory listing, the two OpenCV
  calls, the header writer, the name \<^verbatim>\<open>tempfile.mkstemp\<close> picks in a file system, and
  whether the output archive can be opened for writing.
\<close>

record env =
  env_glob :: "string \<Rightarrow> string list"
  env_imread :: "string \<Rightarrow> image option"
  env_resize :: resizer
  env_hdr :: header_writer
  env_mkstemp :: "(string \<rightharpoonup> byte list) \<Rightarrow> string"
  env_can_write :: "string \<Rightarrow> bool"

text \<open>The variables of \<^verbatim>\<open>create_dataset\<close> that the closure \<^verbatim>\<open>process\<close> reads.\<close>

record job =
  files :: "string list"
  classes :: "nat list"
  image_size :: nat
  fmap :: memmap        \<comment> \<open>the array \<^verbatim>\<open>features\<close>\<close>
  lmap :: memmap        \<comment> \<open>the array \<^verbatim>\<open>labels\<close>\<close>

text \<open>
  One call \<^verbatim>\<open>process(index)\<close> runs on a thread of the pool; threads interleave
  between the steps below. A worker's control point records where it is and the local
  variables it holds: \<^verbatim>\<open>img\<close>, \<^verbatim>\<open>reservation\<close> and, inside \<^verbatim>\<open>target[0] += 1\<close>, the value
  read before the addition is stored.
\<close>

datatype pc =
    Start                      \<comment> \<open>before \<^verbatim>\<open>load_crop_resize_img\<close>\<close>
  | Ready image                \<comment> \<open>image loaded, waiting for the lock\<close>
  | Held image                 \<comment> \<open>inside \<^verbatim>\<open>with lock\<close>\<close>
  | Copied image nat           \<comment> \<open>\<^verbatim>\<open>reservation = copy.copy(target[0])\<close> done\<close>
  | Fetched image nat nat      \<comment> \<open>\<^verbatim>\<open>target[0]\<close> read for the increment\<close>
  | Stored image nat           \<comment> \<open>\<^verbatim>\<open>target[0]\<close> written\<close>
  | Released image nat         \<comment> \<open>the lock released\<close>
  | Wrote nat                  \<comment> \<open>\<^verbatim>\<open>features[reservation] = img\<close> done\<close>
  | Done nat                   \<comment> \<open>\<^verbatim>\<open>labels[reservation] = classes[index]\<close> done\<close>
  | Skipped                    \<comment> \<open>\<^verbatim>\<open>ImageTooSmall\<close> caught and logged\<close>
  | Failed error               \<comment> \<open>an exception left \<^verbatim>\<open>process\<close> before it took the lock\<close>
  | Aborted nat error          \<comment> \<open>an exception left \<^verbatim>\<open>process\<close> after it reserved an index\<close>

record pstate =
  target :: nat                          \<comment> \<open>\<^verbatim>\<open>mutable_target[0]\<close>\<close>
  locked :: bool                         \<comment> \<open>\<^verbatim>\<open>lock\<close> is held\<close>
  features :: "byte list"                \<comment> \<open>the file behind \<^verbatim>\<open>features\<close>\<close>
  labels :: "byte list"                  \<comment> \<open>the file behind \<^verbatim>\<open>labels\<close>\<close>
  warnings :: "(error \<times> string) list"    \<comment> \<open>the warnings logged: the exception and the file\<close>
  pcs :: "nat \<Rightarrow> pc"

definition flatten :: "image \<Rightarrow> byte list" where
  \<comment> \<open>the bytes of an image array in C order\<close>
  "flatten img = concat (concat img)"

definition int32_bytes :: "nat \<Rightarrow> byte list" where
  \<comment> \<open>an integer stored as \<^verbatim>\<open>'<i4'\<close>: 32 bits, little-endian\<close>
  "int32_bytes n = map (\<lambda>k. of_nat ((n mod 2 ^ 32) div 2 ^ (8 * k) mod 256)) [0..<4]"

definition num_entries :: "memmap \<Rightarrow> nat" where
  "num_entries m = (case mm_shape m of [] \<Rightarrow> 0 | n # _ \<Rightarrow> n)"

definition load :: "env \<Rightarrow> job \<Rightarrow> nat \<Rightarrow> error + image" where
  "load E J index = load_crop_resize_img (env_imread E) (env_resize E) (files J ! index) (image_size J)"

text \<open>
  One step of worker \<open>w\<close>. A worker that waits for the lock, has finished, or does not
  exist leaves the state as it is. The assignments into the arrays raise where numpy
  does: an index past the first axis, a value whose shape is not the entry's.
\<close>

definition step :: "env \<Rightarrow> job \<Rightarrow> nat \<Rightarrow> pstate \<Rightarrow> pstate" where
  "step E J w s =
     (if length (files J) \<le> w then s
      else (case pcs s w of
          Start \<Rightarrow>
            (case load E J w of
               Inr img \<Rightarrow> s\<lparr>pcs := (pcs s)(w := Ready img)\<rparr>
             | Inl err \<Rightarrow>
                 (case err of
                    ImageTooSmall sz \<Rightarrow>
                      s\<lparr>warnings := warnings s @ [(err, files J ! w)], pcs := (pcs s)(w := Skipped)\<rparr>
                  | _ \<Rightarrow> s\<lparr>pcs := (pcs s)(w := Failed err)\<rparr>))
        | Ready img \<Rightarrow>
            (if locked s then s else s\<lparr>locked := True, pcs := (pcs s)(w := Held img)\<rparr>)
        | Held img \<Rightarrow> s\<lparr>pcs := (pcs s)(w := Copied img (target s))\<rparr>
        | Copied img r \<Rightarrow> s\<lparr>pcs := (pcs s)(w := Fetched img r (target s))\<rparr>
        | Fetched img r t \<Rightarrow> s\<lparr>target := t + 1, pcs := (pcs s)(w := Stored img r)\<rparr>
        | Stored img r \<Rightarrow> s\<lparr>locked := False, pcs := (pcs s)(w := Released img r)\<rparr>
        | Released img r \<Rightarrow>
            (if num_entries (fmap J) \<le> r then s\<lparr>pcs := (pcs s)(w := Aborted r (IndexError r))\<rparr>
             else if \<not> rect (image_size J) (image_size J) 3 img
               then s\<lparr>pcs := (pcs s)(w := Aborted r BroadcastError)\<rparr>
             else s\<lparr>features := mm_set (fmap J) (features s) r (flatten img),
                    pcs := (pcs s)(w := Wrote r)\<rparr>)
        | Wrote r \<Rightarrow>
            (if length (classes J) \<le> w then s\<lparr>pcs := (pcs s)(w := Aborted r (IndexError w))\<rparr>
             else if num_entries (lmap J) \<le> r then s\<lparr>pcs := (pcs s)(w := Aborted r (IndexError r))\<rparr>
             else s\<lparr>labels := mm_set (lmap J) (labels s) r (int32_bytes (classes J ! w)),
                    pcs := (pcs s)(w := Done r)\<rparr>)
        | Done r \<Rightarrow> s
        | Skipped \<Rightarrow> s
        | Failed err \<Rightarrow> s
        | Aborted r err \<Rightarrow> s))"

definition run :: "env \<Rightarrow> job \<Rightarrow> nat list \<Rightarrow> pstate \<Rightarrow> pstate" where
  \<comment> \<open>a schedule names the worker that takes each step; every interleaving is a schedule\<close>
  "run E J sched s = fold (step E J) sched s"

definition init_pstate :: "byte list \<Rightarrow> byte list \<Rightarrow> pstate" where
  "init_pstate ffile lfile =
     \<lparr>target = 0, locked = False, features = ffile, labels = lfile, warnings = [],
      pcs = (\<lambda>_. Start)\<rparr>"

fun finished :: "pc \<Rightarrow> bool" where
  "finished (Done r) = True"
| "finished Skipped = True"
| "finished _ = False"

fun failure :: "pc \<Rightarrow> error option" where
  "failure (Failed err) = Some err"
| "failure (Aborted r err) = Some err"
| "failure _ = None"

fun reservation :: "pc \<Rightarrow> nat option" where
  "reservation (Copied img r) = Some r"
| "reservation (Fetched img r t) = Some r"
| "reservation (Stored img r) = Some r"
| "reservation (Released img r) = Some r"
| "reservation (Wrote r) = Some r"
| "reservation (Done r) = Some r"
| "reservation (Aborted r err) = Some r"
| "reservation _ = None"

fun in_cs :: "pc \<Rightarrow> bool" where
  "in_cs (Held img) = True"
| "in_cs (Copied img r) = True"
| "in_cs (Fetched img r t) = True"
| "in_cs (Stored img r) = True"
| "in_cs _ = False"

fun counted :: "pc \<Rightarrow> bool" where
  \<comment> \<open>the worker has stored its increment of the counter\<close>
  "counted (Stored img r) = True"
| "counted (Released img r) = True"
| "counted (Wrote r) = True"
| "counted (Done r) = True"
| "counted (Aborted r err) = True"
| "counted _ = False"

fun fetched :: "pc \<Rightarrow> nat option" where
  \<comment> \<open>the value read inside \<^verbatim>\<open>target[0] += 1\<close>, until it is stored\<close>
  "fetched (Fetched img r t) = Some t"
| "fetched _ = None"

fun held_image :: "pc \<Rightarrow> image option" where
  "held_image (Ready img) = Some img"
| "held_image (Held img) = Some img"
| "held_image (Copied img r) = Some img"
| "held_image (Fetched img r t) = Some img"
| "held_image (Stored img r) = Some img"
| "held_image (Released img r) = Some img"
| "held_image _ = None"

text \<open>
  \<^verbatim>\<open>Parallel(prefer="threads")(map(process, range(num_files)))\<close> returns when every
  call has returned and raises when a call has raised. A schedule that leaves a call
  unfinished with no call failed is not a whole run: the result is \<open>None\<close>. The error
  of a failed run is that of the failed call of least index.
\<close>

definition parallel :: "env \<Rightarrow> job \<Rightarrow> nat list \<Rightarrow> pstate \<Rightarrow> (error option \<times> pstate) option" where
  "parallel E J sched s0 =
     (let s = run E J sched s0;
          workers = [0..<length (files J)]
      in (case List.map_filter (\<lambda>w. failure (pcs s w)) workers of
            err # _ \<Rightarrow> Some (Some err, s)
          | [] \<Rightarrow> if list_all (\<lambda>w. finished (pcs s w)) workers then Some (None, s) else None))"

section \<open>\<^verbatim>\<open>create_dataset\<close>\<close>

text \<open>
  The world outside the process: the files on disk, the zip archives on disk (each a
  list of named entries), and the warnings logged so far.
\<close>

record world =
  fs :: "string \<rightharpoonup> byte list"
  archives :: "string \<rightharpoonup> (string \<times> byte list) list"
  logged :: "(error \<times> string) list"

definition os_remove :: "world \<Rightarrow> string \<Rightarrow> error + world" where
  "os_remove W filename =
     (if fs W filename = None then Inl (FileNotFoundError filename)
      else Inr (W\<lparr>fs := (fs W)(filename := None)\<rparr>))"

text \<open>
  \<^verbatim>\<open>with temporary_file() as filename: body\<close>. \<^verbatim>\<open>mkstemp\<close> creates an empty file;
  the \<^verbatim>\<open>finally\<close> clause removes it whether the body returned or raised, and an
  exception of \<^verbatim>\<open>os.remove\<close> replaces the body's outcome.
\<close>

definition with_temporary_file ::
  "env \<Rightarrow> world \<Rightarrow> (string \<Rightarrow> world \<Rightarrow> ((error + unit) \<times> world) option)
     \<Rightarrow> ((error + unit) \<times> world) option"
where
  "with_temporary_file E W body =
     (let filename = env_mkstemp E (fs W);
          W1 = W\<lparr>fs := (fs W)(filename \<mapsto> [])\<rparr>
      in (case body filename W1 of
            None \<Rightarrow> None
          | Some (outcome, W2) \<Rightarrow>
              (case os_remove W2 filename of
                 Inl err \<Rightarrow> Some (Inl err, W2)
               | Inr W3 \<Rightarrow> Some (outcome, W3))))"

definition pack :: "env \<Rightarrow> world \<Rightarrow> memmap \<Rightarrow> memmap \<Rightarrow> nat \<Rightarrow> string \<Rightarrow> (error + unit) \<times> world" where
  \<comment> \<open>the two \<^verbatim>\<open>resize_npy_file\<close> calls and the writing of the archive\<close>
  "pack E W features_map labels_map count output_npz =
     (case resize_npy_file (env_hdr E) (fs W) features_map (count # tl (mm_shape features_map)) of
        Inl err \<Rightarrow> (Inl err, W)
      | Inr (fs1, features_out) \<Rightarrow>
          (case resize_npy_file (env_hdr E) fs1 labels_map [count] of
             Inl err \<Rightarrow> (Inl err, W\<lparr>fs := fs1\<rparr>)
           | Inr (fs2, labels_out) \<Rightarrow>
               if \<not> env_can_write E output_npz
               then (Inl (FileNotFoundError output_npz), W\<lparr>fs := fs2\<rparr>)
               else (Inr (),
                     W\<lparr>fs := fs2,
                       archives := (archives W)(output_npz \<mapsto>
                         [(''features.npy'', write_array (env_hdr E) fs2 features_out),
                          (''labels.npy'', write_array (env_hdr E) fs2 labels_out)])\<rparr>)))"

definition make_job :: "env \<Rightarrow> string list \<Rightarrow> nat list \<Rightarrow> nat \<Rightarrow> string \<Rightarrow> string \<Rightarrow> job" where
  \<comment> \<open>the closure of \<^verbatim>\<open>process\<close> once both arrays are mapped\<close>
  "make_job E fls cls sz features_file labels_file =
     \<lparr>files = fls, classes = cls, image_size = sz,
      fmap = fst (open_memmap (env_hdr E) features_file [length fls, sz, sz, 3] ''|u1'' 1),
      lmap = fst (open_memmap (env_hdr E) labels_file [length fls] ''<i4'' 4)\<rparr>"

definition init_job_state :: "env \<Rightarrow> job \<Rightarrow> pstate" where
  \<comment> \<open>both files as \<^verbatim>\<open>open_memmap\<close> leaves them, the counter at 0, the lock free\<close>
  "init_job_state E J =
     init_pstate
       (snd (open_memmap (env_hdr E) (mm_filename (fmap J)) (mm_shape (fmap J)) ''|u1'' 1))
       (snd (open_memmap (env_hdr E) (mm_filename (lmap J)) (mm_shape (lmap J)) ''<i4'' 4))"

text \<open>
  The body of the \<^verbatim>\<open>with\<close> statement of \<^verbatim>\<open>create_dataset\<close>: map both arrays, run
  the workers under the given schedule, then finalize the files and write the archive.
  The files on disk hold what the workers wrote.
\<close>

definition dataset_body ::
  "env \<Rightarrow> nat list \<Rightarrow> string list \<Rightarrow> nat list \<Rightarrow> nat \<Rightarrow> string \<Rightarrow> string \<Rightarrow> string \<Rightarrow> world
     \<Rightarrow> ((error + unit) \<times> world) option"
where
  "dataset_body E sched fls cls sz output_npz features_file labels_file W2 =
     (let J = make_job E fls cls sz features_file labels_file;
          s0 = init_job_state E J;
          W3 = W2\<lparr>fs := (fs W2)(features_file \<mapsto> features s0, labels_file \<mapsto> labels s0)\<rparr>
      in (case parallel E J sched s0 of
            None \<Rightarrow> None
          | Some (raised, s) \<Rightarrow>
              (let W4 = W3\<lparr>fs := (fs W3)(features_file \<mapsto> features s, labels_file \<mapsto> labels s),
                            logged := logged W3 @ warnings s\<rparr>
               in (case raised of
                     Some err \<Rightarrow> Some (Inl err, W4)
                   | None \<Rightarrow> Some (pack E W4 (fmap J) (lmap J) (target s) output_npz)))))"

text \<open>
  \<^verbatim>\<open>create_dataset(data_dir, output_npz, image_size)\<close>, with the schedule of the
  worker threads as an argument. The result is the exception raised, if any, and the
  world afterwards; \<open>None\<close> when the schedule is not a whole run.
\<close>

definition create_dataset ::
  "env \<Rightarrow> nat list \<Rightarrow> string \<Rightarrow> string \<Rightarrow> nat \<Rightarrow> world \<Rightarrow> ((error + unit) \<times> world) option"
where
  "create_dataset E sched data_dir output_npz sz W =
     (let fls = fst (glob_image_files (env_glob E) data_dir);
          cls = snd (glob_image_files (env_glob E) data_dir);
          num_files = length fls
      in if num_files = 0 then Some (Inl (IOError data_dir), W)
         else
           with_temporary_file E W (\<lambda>features_file W1.
             with_temporary_file E W1 (\<lambda>labels_file W2.
               dataset_body E sched fls cls sz output_npz features_file labels_file W2)))"

section \<open>Invariants of the workers\<close>

text \<open>
  What every reachable state of the workers satisfies. The lock: it is held exactly
  when a worker is inside \<^verbatim>\<open>with lock\<close>, and by one worker at most. The counter: a
  worker that has copied the counter but not yet stored its increment holds the current
  value; one that has stored it holds a smaller value; no two workers hold the same
  value; every value below the counter is held by a worker that has stored its
  increment.
\<close>

definition lock_held_iff :: "nat \<Rightarrow> pstate \<Rightarrow> bool" where
  "lock_held_iff N s \<longleftrightarrow> (locked s \<longleftrightarrow> (\<exists>w<N. in_cs (pcs s w)))"

definition mutex :: "nat \<Rightarrow> pstate \<Rightarrow> bool" where
  "mutex N s \<longleftrightarrow> (\<forall>w<N. \<forall>v<N. in_cs (pcs s w) \<and> in_cs (pcs s v) \<longrightarrow> w = v)"

definition reserved_value :: "nat \<Rightarrow> pstate \<Rightarrow> bool" where
  "reserved_value N s \<longleftrightarrow>
     (\<forall>w<N. \<forall>r. reservation (pcs s w) = Some r \<longrightarrow>
        (if counted (pcs s w) then r < target s else r = target s \<and> in_cs (pcs s w)))"

definition fetched_value :: "nat \<Rightarrow> pstate \<Rightarrow> bool" where
  "fetched_value N s \<longleftrightarrow>
     (\<forall>w<N. \<forall>t. fetched (pcs s w) = Some t \<longrightarrow>
        t = target s \<and> in_cs (pcs s w) \<and> \<not> counted (pcs s w))"

definition no_reuse :: "nat \<Rightarrow> pstate \<Rightarrow> bool" where
  "no_reuse N s \<longleftrightarrow>
     (\<forall>w<N. \<forall>v<N. \<forall>r. w \<noteq> v \<and> reservation (pcs s w) = Some r \<longrightarrow>
        reservation (pcs s v) \<noteq> Some r)"

definition no_gaps :: "nat \<Rightarrow> pstate \<Rightarrow> bool" where
  "no_gaps N s \<longleftrightarrow>
     (\<forall>r<target s. \<exists>w<N. counted (pcs s w) \<and> reservation (pcs s w) = Some r)"

definition lock_inv :: "nat \<Rightarrow> pstate \<Rightarrow> bool" where
  "lock_inv N s \<longleftrightarrow>
     lock_held_iff N s \<and> mutex N s \<and> reserved_value N s \<and> fetched_value N s
     \<and> no_reuse N s \<and> no_gaps N s"

text \<open>
  The job as \<^verbatim>\<open>create_dataset\<close> sets it up: one class per file, the two arrays with
  one entry per file.
\<close>

definition wf_job :: "job \<Rightarrow> bool" where
  "wf_job J \<longleftrightarrow>
     length (classes J) = length (files J) \<and>
     mm_shape (fmap J) = [length (files J), image_size J, image_size J, 3] \<and>
     mm_itemsize (fmap J) = 1 \<and>
     mm_shape (lmap J) = [length (files J)] \<and>
     mm_itemsize (lmap J) = 4"

text \<open>
  The data: a worker that holds an image holds the one its file loads to; an entry a
  worker has written holds that image, of the entry's shape, and once the worker is
  done the label entry holds the class of its file; a skipped worker's file was too
  small; a worker that failed before the lock had a file that did not load, for another
  reason than its size; one that failed later had loaded its image; the files keep
  their length; the warnings logged are those of the skipped workers.
\<close>

definition images_loaded :: "env \<Rightarrow> job \<Rightarrow> pstate \<Rightarrow> bool" where
  "images_loaded E J s \<longleftrightarrow>
     (\<forall>w<length (files J). \<forall>img. held_image (pcs s w) = Some img \<longrightarrow> load E J w = Inr img)"

definition features_written :: "env \<Rightarrow> job \<Rightarrow> pstate \<Rightarrow> bool" where
  "features_written E J s \<longleftrightarrow>
     (\<forall>w<length (files J). \<forall>r. pcs s w = Wrote r \<or> pcs s w = Done r \<longrightarrow>
        r < length (files J) \<and>
        (\<exists>img. load E J w = Inr img \<and> rect (image_size J) (image_size J) 3 img
           \<and> mm_get (fmap J) (features s) r = flatten img))"

definition labels_written :: "job \<Rightarrow> pstate \<Rightarrow> bool" where
  "labels_written J s \<longleftrightarrow>
     (\<forall>w<length (files J). \<forall>r. pcs s w = Done r \<longrightarrow>
        mm_get (lmap J) (labels s) r = int32_bytes (classes J ! w))"

definition outcomes_explained :: "env \<Rightarrow> job \<Rightarrow> pstate \<Rightarrow> bool" where
  "outcomes_explained E J s \<longleftrightarrow>
     (\<forall>w<length (files J).
        (pcs s w = Skipped \<longrightarrow> (\<exists>sz. load E J w = Inl (ImageTooSmall sz))) \<and>
        (\<forall>err. pcs s w = Failed err \<longrightarrow>
           load E J w = Inl err \<and> (\<forall>sz. err \<noteq> ImageTooSmall sz)) \<and>
        (\<forall>r err. pcs s w = Aborted r err \<longrightarrow> (\<exists>img. load E J w = Inr img)))"

definition files_sized :: "job \<Rightarrow> pstate \<Rightarrow> bool" where
  "files_sized J s \<longleftrightarrow>
     length (features s) = mm_offset (fmap J) + length (files J) * entry_bytes (fmap J) \<and>
     length (labels s) = mm_offset (lmap J) + length (files J) * entry_bytes (lmap J)"

definition warnings_logged :: "env \<Rightarrow> job \<Rightarrow> pstate \<Rightarrow> bool" where
  "warnings_logged E J s \<longleftrightarrow>
     set (warnings s) =
       {(err, files J ! w) | w err. w < length (files J) \<and> pcs s w = Skipped \<and> load E J w = Inl err}"

definition data_inv :: "env \<Rightarrow> job \<Rightarrow> pstate \<Rightarrow> bool" where
  "data_inv E J s \<longleftrightarrow>
     images_loaded E J s \<and> features_written E J s \<and> labels_written J s
     \<and> outcomes_explained E J s \<and> files_sized J s \<and> warnings_logged E J s"

section \<open>A small world for the examples\<close>

text \<open>
  A directory \<^verbatim>\<open>data\<close> with two class directories: \<^verbatim>\<open>a\<close> holds a 4 by 2 image and
  \<^verbatim>\<open>b\<close> a 1 by 1 image. A directory \<^verbatim>\<open>bad\<close> whose only image cannot be decoded.
  The concrete runs below are evaluated in this world.
\<close>

definition ex_glob :: "string \<Rightarrow> string list" where
  "ex_glob pattern =
     (if pattern = ''data/*/'' then [''data/b/'', ''data/a/'']
      else if pattern = ''data/a/*.jpg'' then [''data/a/x.jpg'']
      else if pattern = ''data/b/*.png'' then [''data/b/y.png'']
      else if pattern = ''bad/*/'' then [''bad/c/'']
      else if pattern = ''bad/c/*.jpg'' then [''bad/c/u.jpg'']
      else [])"

definition ex_imread :: "string \<Rightarrow> image option" where
  "ex_imread filename =
     (if filename = ''data/a/x.jpg''
      then Some [[[1, 2, 3], [4, 5, 6]], [[11, 12, 13], [14, 15, 16]],
                 [[21, 22, 23], [24, 25, 26]], [[31, 32, 33], [34, 35, 36]]]
      else if filename = ''data/b/y.png'' then Some [[[7, 8, 9]]]
      else None)"

definition ex_mkstemp :: "(string \<rightharpoonup> byte list) \<Rightarrow> string" where
  "ex_mkstemp files_on_disk =
     (if files_on_disk ''/tmp/tmp0'' = None then ''/tmp/tmp0'' else ''/tmp/tmp1'')"

definition ex_env :: env where
  "ex_env = \<lparr>env_glob = ex_glob, env_imread = ex_imread, env_resize = ex_resize,
             env_hdr = npy_header, env_mkstemp = ex_mkstemp, env_can_write = (\<lambda>_. True)\<rparr>"

definition ex_job :: "nat \<Rightarrow> job" where
  \<comment> \<open>the job of \<^verbatim>\<open>create_dataset("data", _, sz)\<close>\<close>
  "ex_job sz =
     make_job ex_env (fst (glob_image_files ex_glob ''data'')) (snd (glob_image_files ex_glob ''data''))
       sz ''/tmp/tmp0'' ''/tmp/tmp1''"

definition empty_world :: world where
  "empty_world = \<lparr>fs = Map.empty, archives = Map.empty, logged = []\<rparr>"


definition observe2 :: "pstate \<Rightarrow> nat \<times> bool \<times> (error \<times> string) list \<times> pc \<times> pc" where
  \<comment> \<open>what the examples read of a state with two workers\<close>
  "observe2 s = (target s, locked s, warnings s, pcs s 0, pcs s 1)"

section \<open>Properties\<close>

lemma size_at_argmin2: "size_at sz (argmin2 sz) = min (fst sz) (snd sz)"
  by (simp add: size_at_def argmin2_def min_def)

subsection \<open>Per-replica batch size\<close>

text \<open>
  C8 (as amended). With at least one GPU detected, \<open>get_per_replica_batch_size\<close> raises
  \<open>ValueError\<close> exactly when the global batch size is not divisible by the number of
  GPUs, and otherwise returns the quotient; with no GPU detected it returns the global
  batch size unchanged and never raises.
\<close>

theorem get_per_replica_batch_size_cases:
  "get_per_replica_batch_size gpus g =
     (if gpus = [] then Inr g
      else if int (length gpus) dvd g then Inr (g div int (length gpus))
      else Inl (ValueError g (length gpus)))"
  by (simp add: get_per_replica_batch_size_def Let_def dvd_eq_mod_eq_0)

theorem get_per_replica_batch_size_cases_witness:
  "get_per_replica_batch_size [''/device:GPU:0'', ''/device:GPU:1''] 64 = Inr 32
   \<and> get_per_replica_batch_size [''/device:GPU:0'', ''/device:GPU:1''] 65 = Inl (ValueError 65 2)"
  using get_per_replica_batch_size_cases [of "[''/device:GPU:0'', ''/device:GPU:1'']" 64]
        get_per_replica_batch_size_cases [of "[''/device:GPU:0'', ''/device:GPU:1'']" 65]
  by simp

text \<open>
  C8 as stated fails with no GPU: 8 is not divisible by a device count of 0, and the
  function returns 8 instead of raising.
\<close>

theorem get_per_replica_batch_size_no_gpu_counterexample:
  "\<not> int (length ([] :: string list)) dvd 8 \<and> get_per_replica_batch_size [] 8 = Inr 8"
  by (simp add: get_per_replica_batch_size_def)

subsection \<open>The crop and resize of one image\<close>

lemma shape2_rect: "rect h w c img \<Longrightarrow> 0 < h \<Longrightarrow> shape2 img = (h, w)"
  by (cases img) (auto simp: rect_def shape2_def)

lemma apply_crop_centered_square: "apply_crop (shape2 img) img = centered_square_spec img"
  by (auto simp: apply_crop_def centered_square_spec_def crop_slice_def argmin2_def size_at_def
      Let_def min_def max_def)

lemma rect_centered_square:
  assumes "rect h w c img" "0 < h"
  shows "rect (min h w) (min h w) c (centered_square_spec img)"
proof -
  have sh: "shape2 img = (h, w)" using assms by (rule shape2_rect)
  have rows: "\<forall>row \<in> set img. length row = w \<and> (\<forall>p \<in> set row. length p = c)"
    using assms(1) by (auto simp: rect_def list_all_iff)
  have len: "length img = h" using assms(1) by (simp add: rect_def)
  show ?thesis
  proof (cases "w < h")
    case True
    then show ?thesis using rows len sh
      by (auto simp: rect_def centered_square_spec_def Let_def list_all_iff min_def max_def
          dest!: in_set_takeD in_set_dropD)
  next
    case False
    then show ?thesis using rows len sh
      by (auto simp: rect_def centered_square_spec_def Let_def list_all_iff min_def max_def
          dest!: in_set_takeD in_set_dropD)
  qed
qed

lemma channels_rect: "rect h0 w0 c src \<Longrightarrow> 0 < h0 \<Longrightarrow> 0 < w0 \<Longrightarrow> channels src = c"
proof -
  assume a: "rect h0 w0 c src" "0 < h0" "0 < w0"
  then obtain row rows where src: "src = row # rows" by (cases src) (auto simp: rect_def)
  with a obtain p ps where row: "row = p # ps" by (cases row) (auto simp: rect_def)
  from a src row show ?thesis by (simp add: rect_def channels_def)
qed

lemma rect_ex_resize: "resizes_to_dsize ex_resize"
  unfolding resizes_to_dsize_def
proof (intro allI impI)
  fix src :: image and h0 w0 c w h :: nat and flag :: interpolation
  assume a: "rect h0 w0 c src \<and> 0 < h0 \<and> 0 < w0 \<and> 0 < h \<and> 0 < w"
  then have "channels src = c" using channels_rect by blast
  then show "rect h w c (ex_resize src (w, h) flag)"
    by (simp add: ex_resize_def box_resize_def nearest_resize_def rect_def list_all_iff Let_def)
qed

text \<open>
  C6. For a decodable image (a non-empty \<open>h \<times> w \<times> 3\<close> array) whose shorter side is at
  least the target size \<open>S > 0\<close>, \<open>load_crop_resize_img\<close> returns what OpenCV's resize
  gives, asked for size \<open>(S, S)\<close> and for area interpolation (\<open>INTER_AREA\<close>), on the
  centered square of the spec: side the shorter dimension, cut along the longer axis at
  offset \<open>(longer - shorter) div 2\<close>, the shorter axis whole, channels reversed. The crop
  is a square of that side, the result is \<open>S \<times> S \<times> 3\<close> for a resize that returns the
  shape it is asked for, and a 200 by 100 image is cropped to rows 50 to 149 with all
  columns.
\<close>

theorem load_crop_resize_img_centered_square:
  assumes "imread filename = Some img" and "rect h w 3 img" and "0 < h" and "0 < w"
    and "0 < S" and "S \<le> min h w" and "resizes_to_dsize resize"
  shows "load_crop_resize_img imread resize filename S
           = Inr (resize (centered_square_spec img) (S, S) INTER_AREA)
       \<and> rect (min h w) (min h w) 3 (centered_square_spec img)
       \<and> rect S S 3 (resize (centered_square_spec img) (S, S) INTER_AREA)
       \<and> (h = 200 \<and> w = 100 \<longrightarrow>
            centered_square_spec img = map (map rev) (take 100 (drop 50 img)))"
proof -
  have sh: "shape2 img = (h, w)" using assms(2,3) by (rule shape2_rect)
  have sq: "rect (min h w) (min h w) 3 (centered_square_spec img)"
    using assms(2,3) by (rule rect_centered_square)
  have m: "0 < min h w" using assms(3,4) by simp
  have sq_shape: "shape2 (centered_square_spec img) = (min h w, min h w)"
    using sq m by (rule shape2_rect)
  have out: "rect S S 3 (resize (centered_square_spec img) (S, S) INTER_AREA)"
    using assms(7) sq m assms(5) unfolding resizes_to_dsize_def by blast
  have load: "load_crop_resize_img imread resize filename S
           = Inr (resize (centered_square_spec img) (S, S) INTER_AREA)"
    using assms(1,5,6) sh apply_crop_centered_square [of img] sq_shape m
    by (auto simp add: load_crop_resize_img_def cv2_resize_def Let_def size_at_argmin2)
  have ex: "h = 200 \<and> w = 100 \<longrightarrow>
            centered_square_spec img = map (map rev) (take 100 (drop 50 img))"
    using sh by (simp add: centered_square_spec_def Let_def)
  from load sq out ex show ?thesis by blast
qed

theorem load_crop_resize_img_centered_square_witness:
  "load_crop_resize_img (\<lambda>_. Some (replicate 200 (replicate 100 [1, 2, 3]))) ex_resize ''a.png'' 50
     = Inr (ex_resize (replicate 100 (replicate 100 [3, 2, 1])) (50, 50) INTER_AREA)
   \<and> rect 50 50 3 (ex_resize (replicate 100 (replicate 100 [3, 2, 1])) (50, 50) INTER_AREA)"
proof -
  let ?img = "replicate 200 (replicate 100 [1, 2, 3 :: 8 word])"
  have r: "rect 200 100 3 ?img" by (simp add: rect_def list_all_iff)
  have c: "centered_square_spec ?img = replicate 100 (replicate 100 [3, 2, 1])"
    using load_crop_resize_img_centered_square
      [of "\<lambda>_. Some ?img" "''a.png''" ?img 200 100 50 ex_resize, OF refl r _ _ _ _ rect_ex_resize]
    by simp
  show ?thesis
    using load_crop_resize_img_centered_square
      [of "\<lambda>_. Some ?img" "''a.png''" ?img 200 100 50 ex_resize, OF refl r _ _ _ _ rect_ex_resize]
    unfolding c by simp
qed

subsection \<open>Reading and writing entries of a mapped array\<close>

lemma length_splice: "pos + length ys \<le> length xs \<Longrightarrow> length (splice xs pos ys) = length xs"
  by (simp add: splice_def)

lemma splice_read_same:
  "pos + length ys \<le> length xs \<Longrightarrow> take (length ys) (drop pos (splice xs pos ys)) = ys"
  by (simp add: splice_def)

lemma splice_read_before:
  "a + n \<le> pos \<Longrightarrow> pos + length ys \<le> length xs
     \<Longrightarrow> take n (drop a (splice xs pos ys)) = take n (drop a xs)"
  by (simp add: splice_def take_drop)

lemma splice_read_after:
  "pos + length ys \<le> a \<Longrightarrow> pos + length ys \<le> length xs
     \<Longrightarrow> take n (drop a (splice xs pos ys)) = take n (drop a xs)"
  by (simp add: splice_def)

lemma length_mm_set:
  "mm_offset m + (i + 1) * entry_bytes m \<le> length content \<Longrightarrow> length bs = entry_bytes m
     \<Longrightarrow> length (mm_set m content i bs) = length content"
  by (simp add: mm_set_def length_splice)

lemma mm_get_set_same:
  "mm_offset m + (i + 1) * entry_bytes m \<le> length content \<Longrightarrow> length bs = entry_bytes m
     \<Longrightarrow> mm_get m (mm_set m content i bs) i = bs"
  using splice_read_same [of "mm_offset m + i * entry_bytes m" bs content]
  by (simp add: mm_set_def mm_get_def)

lemma mm_get_set_other:
  assumes "mm_offset m + (i + 1) * entry_bytes m \<le> length content"
    and "length bs = entry_bytes m" and "j \<noteq> i"
  shows "mm_get m (mm_set m content i bs) j = mm_get m content j"
proof (cases "j < i")
  case True
  then have "(j + 1) * entry_bytes m \<le> i * entry_bytes m"
    by (intro mult_le_mono1) simp
  then show ?thesis using assms(1,2)
    by (simp add: mm_set_def mm_get_def splice_read_before)
next
  case False
  with assms(3) have "(i + 1) * entry_bytes m \<le> j * entry_bytes m"
    by (intro mult_le_mono1) simp
  then show ?thesis using assms(1,2)
    by (simp add: mm_set_def mm_get_def splice_read_after)
qed

subsection \<open>The lock and the counter\<close>

text \<open>
  Each part of the lock invariant is kept when one worker \<open>w\<close> moves to a control point
  \<open>x\<close>, under a condition on \<open>x\<close>; \<open>lock_inv_update\<close> collects the conditions and
  \<open>step_lock_inv\<close> checks them for every step of the worker.
\<close>

lemmas lock_defs = lock_held_iff_def mutex_def reserved_value_def fetched_value_def
  no_reuse_def no_gaps_def

lemma mutex_update:
  assumes "mutex N s" and "pcs s' = (pcs s)(w := x)"
    and "in_cs x \<longrightarrow> (\<forall>v<N. v \<noteq> w \<longrightarrow> \<not> in_cs (pcs s v))"
  shows "mutex N s'"
  unfolding mutex_def
proof (intro allI impI)
  fix a b assume ab: "a < N" "b < N" "in_cs (pcs s' a) \<and> in_cs (pcs s' b)"
  show "a = b"
  proof (cases "a = w \<or> b = w")
    case True
    then show ?thesis using ab assms(2,3) by (auto split: if_splits)
  next
    case False
    then show ?thesis using ab assms(1,2) unfolding mutex_def by (simp)
  qed
qed

lemma reserved_value_update:
  assumes "reserved_value N s" and "pcs s' = (pcs s)(w := x)"
    and "\<forall>r. reservation x = Some r \<longrightarrow> (if counted x then r < target s' else r = target s' \<and> in_cs x)"
    and "target s \<le> target s'"
    and "target s' \<noteq> target s \<longrightarrow> (\<forall>v<N. v \<noteq> w \<longrightarrow> \<not> in_cs (pcs s v))"
  shows "reserved_value N s'"
  unfolding reserved_value_def
proof (intro allI impI)
  fix a r assume a: "a < N" "reservation (pcs s' a) = Some r"
  show "if counted (pcs s' a) then r < target s' else r = target s' \<and> in_cs (pcs s' a)"
  proof (cases "a = w")
    case True
    then show ?thesis using a assms(2,3) by (simp)
  next
    case False
    then have eq: "pcs s' a = pcs s a" using assms(2) by simp
    from assms(1) a eq have old: "if counted (pcs s a) then r < target s else r = target s \<and> in_cs (pcs s a)"
      unfolding reserved_value_def by (simp)
    show ?thesis
    proof (cases "target s' = target s")
      case True
      then show ?thesis using old eq by simp
    next
      case neq: False
      with assms(5) a(1) False have "\<not> in_cs (pcs s a)" by simp
      with old assms(4) show ?thesis unfolding eq by (auto split: if_splits)
    qed
  qed
qed

lemma fetched_value_update:
  assumes "fetched_value N s" and "pcs s' = (pcs s)(w := x)"
    and "\<forall>t. fetched x = Some t \<longrightarrow> t = target s' \<and> in_cs x \<and> \<not> counted x"
    and "target s' \<noteq> target s \<longrightarrow> (\<forall>v<N. v \<noteq> w \<longrightarrow> \<not> in_cs (pcs s v))"
  shows "fetched_value N s'"
  unfolding fetched_value_def
proof (intro allI impI)
  fix a t assume a: "a < N" "fetched (pcs s' a) = Some t"
  show "t = target s' \<and> in_cs (pcs s' a) \<and> \<not> counted (pcs s' a)"
  proof (cases "a = w")
    case True
    then show ?thesis using a assms(2,3) by (simp)
  next
    case False
    then have eq: "pcs s' a = pcs s a" using assms(2) by simp
    from assms(1) a eq have old: "t = target s \<and> in_cs (pcs s a) \<and> \<not> counted (pcs s a)"
      unfolding fetched_value_def by (simp)
    then show ?thesis using assms(4) a(1) False unfolding eq by (auto)
  qed
qed

lemma no_reuse_update:
  assumes "no_reuse N s" and "pcs s' = (pcs s)(w := x)"
    and "\<forall>r. reservation x = Some r \<longrightarrow> (\<forall>v<N. v \<noteq> w \<longrightarrow> reservation (pcs s v) \<noteq> Some r)"
  shows "no_reuse N s'"
  unfolding no_reuse_def
proof (intro allI impI)
  fix a b r assume ab: "a < N" "b < N" "a \<noteq> b \<and> reservation (pcs s' a) = Some r"
  show "reservation (pcs s' b) \<noteq> Some r"
  proof (cases "a = w")
    case True
    then show ?thesis using ab assms(2,3) by (simp)
  next
    case aw: False
    show ?thesis
    proof (cases "b = w")
      case True
      then show ?thesis using ab aw assms(2,3) by (auto)
    next
      case False
      with aw assms(2) have eq: "pcs s' a = pcs s a" "pcs s' b = pcs s b" by simp_all
      show ?thesis using assms(1) [unfolded no_reuse_def, rule_format, of a b r] ab
        unfolding eq by (blast)
    qed
  qed
qed

lemma no_gaps_update:
  assumes "no_gaps N s" and "pcs s' = (pcs s)(w := x)" and "w < N"
    and "counted (pcs s w) \<longrightarrow> counted x \<and> reservation x = reservation (pcs s w)"
    and "\<forall>r. target s \<le> r \<and> r < target s' \<longrightarrow> counted x \<and> reservation x = Some r"
  shows "no_gaps N s'"
  unfolding no_gaps_def
proof (intro allI impI)
  fix r assume r: "r < target s'"
  show "\<exists>v<N. counted (pcs s' v) \<and> reservation (pcs s' v) = Some r"
  proof (cases "r < target s")
    case True
    with assms(1) obtain v where v: "v < N" "counted (pcs s v)" "reservation (pcs s v) = Some r"
      unfolding no_gaps_def by blast
    show ?thesis
    proof (cases "v = w")
      case True
      with v assms(4) have "counted x \<and> reservation x = Some r" by simp
      then show ?thesis using assms(2,3) by (auto)
    next
      case False
      then show ?thesis using v assms(2) by (auto)
    qed
  next
    case False
    with r have "target s \<le> r \<and> r < target s'" by simp
    with assms(5) have "counted x \<and> reservation x = Some r" by blast
    then show ?thesis using assms(2,3) by (auto)
  qed
qed

lemma lock_held_iff_update:
  assumes "mutex N s" "lock_held_iff N s" and "pcs s' = (pcs s)(w := x)" and "w < N"
    and "locked s' = (in_cs x \<or> (locked s \<and> \<not> in_cs (pcs s w)))"
  shows "lock_held_iff N s'"
proof -
  have "(\<exists>v<N. in_cs (pcs s' v)) = (in_cs x \<or> (\<exists>v<N. v \<noteq> w \<and> in_cs (pcs s v)))"
    using assms(3,4) by (auto)
  moreover have "(\<exists>v<N. v \<noteq> w \<and> in_cs (pcs s v)) = (locked s \<and> \<not> in_cs (pcs s w))"
    using assms(1,2,4) unfolding mutex_def lock_held_iff_def by (blast)
  ultimately show ?thesis using assms(5) unfolding lock_held_iff_def by simp
qed

lemma lock_inv_update:
  assumes I: "lock_inv N s" and w: "w < N" and p: "pcs s' = (pcs s)(w := x)"
    and L: "locked s' = (in_cs x \<or> (locked s \<and> \<not> in_cs (pcs s w)))"
    and cs: "in_cs x \<longrightarrow> in_cs (pcs s w) \<or> \<not> locked s"
    and T: "target s \<le> target s'" "target s' \<noteq> target s \<longrightarrow> in_cs (pcs s w)"
    and R: "\<forall>r. reservation x = Some r \<longrightarrow>
              (if counted x then r < target s' else r = target s' \<and> in_cs x)"
    and Fv: "\<forall>t. fetched x = Some t \<longrightarrow> t = target s' \<and> in_cs x \<and> \<not> counted x"
    and NR: "\<forall>r. reservation x = Some r \<longrightarrow>
              reservation (pcs s w) = Some r \<or> (r = target s \<and> in_cs (pcs s w))"
    and G: "counted (pcs s w) \<longrightarrow> counted x \<and> reservation x = reservation (pcs s w)"
      "\<forall>r. target s \<le> r \<and> r < target s' \<longrightarrow> counted x \<and> reservation x = Some r"
  shows "lock_inv N s'"
proof -
  from I have A: "lock_held_iff N s" and B: "mutex N s" and C: "reserved_value N s"
    and D: "fetched_value N s" and E: "no_reuse N s" and F: "no_gaps N s"
    by (simp_all add: lock_inv_def)
  have alone: "in_cs (pcs s w) \<or> \<not> locked s \<longrightarrow> (\<forall>v<N. v \<noteq> w \<longrightarrow> \<not> in_cs (pcs s v))"
    using A B w unfolding lock_held_iff_def mutex_def by blast
  have a: "lock_held_iff N s'" using B A p w L by (rule lock_held_iff_update)
  have b: "mutex N s'"
    by (rule mutex_update [OF B p]) (use alone cs in blast)
  have quiet: "target s' \<noteq> target s \<longrightarrow> (\<forall>v<N. v \<noteq> w \<longrightarrow> \<not> in_cs (pcs s v))"
    using alone T(2) by blast
  have c: "reserved_value N s'"
    by (rule reserved_value_update [OF C p R T(1) quiet])
  have d: "fetched_value N s'"
    by (rule fetched_value_update [OF D p Fv quiet])
  have nr: "\<forall>r. reservation x = Some r \<longrightarrow> (\<forall>v<N. v \<noteq> w \<longrightarrow> reservation (pcs s v) \<noteq> Some r)"
  proof (intro allI impI)
    fix r v assume x: "reservation x = Some r" and v: "v < N" "v \<noteq> w"
    from NR x consider "reservation (pcs s w) = Some r" | "r = target s" "in_cs (pcs s w)" by blast
    then show "reservation (pcs s v) \<noteq> Some r"
    proof cases
      case 1
      then show ?thesis using E [unfolded no_reuse_def, rule_format, of w v r] w v by blast
    next
      case 2
      with alone v have "\<not> in_cs (pcs s v)" by blast
      then show ?thesis using C [unfolded reserved_value_def, rule_format, of v r] v 2(1)
        by (auto split: if_splits)
    qed
  qed
  have e: "no_reuse N s'" using E p nr by (rule no_reuse_update)
  have f: "no_gaps N s'" using F p w G by (rule no_gaps_update)
  from a b c d e f show ?thesis by (simp add: lock_inv_def)
qed




lemma step_lock_inv:
  assumes "lock_inv (length (files J)) s"
  shows "lock_inv (length (files J)) (step E J w s)"
proof (cases "w < length (files J)")
  case False
  then show ?thesis using assms by (simp add: step_def)
next
  case w: True
  have lk: "in_cs (pcs s w) \<Longrightarrow> locked s"
    using assms w unfolding lock_inv_def lock_held_iff_def by blast
  have rv: "\<And>r. reservation (pcs s w) = Some r \<Longrightarrow>
      (if counted (pcs s w) then r < target s else r = target s \<and> in_cs (pcs s w))"
    using assms w unfolding lock_inv_def reserved_value_def by blast
  have fv: "\<And>t. fetched (pcs s w) = Some t \<Longrightarrow> t = target s"
    using assms w unfolding lock_inv_def fetched_value_def by blast
  note upd = lock_inv_update [OF assms w]
  show ?thesis
  proof (cases "pcs s w")
    case Start
    show ?thesis
    proof (cases "load E J w")
      case (Inr img)
      with Start w have st: "step E J w s = s\<lparr>pcs := (pcs s)(w := Ready img)\<rparr>"
        by (simp add: step_def)
      show ?thesis by (rule upd [where x = "Ready img"]; (use st Start in \<open>simp\<close>))
    next
      case (Inl err)
      show ?thesis
      proof (cases "\<exists>sz. err = ImageTooSmall sz")
        case True
        with Start w Inl have st: "step E J w s =
            s\<lparr>warnings := warnings s @ [(err, files J ! w)], pcs := (pcs s)(w := Skipped)\<rparr>"
          by (auto simp: step_def)
        show ?thesis by (rule upd [where x = Skipped]; (use st Start in \<open>simp\<close>))
      next
        case False
        with Start w Inl have st: "step E J w s = s\<lparr>pcs := (pcs s)(w := Failed err)\<rparr>"
          by (cases err; simp add: step_def)
        show ?thesis by (rule upd [where x = "Failed err"]; (use st Start in \<open>simp\<close>))
      qed
    qed
  next
    case (Ready img)
    show ?thesis
    proof (cases "locked s")
      case True
      with Ready w have "step E J w s = s" by (simp add: step_def)
      then show ?thesis using assms by simp
    next
      case False
      with Ready w have st: "step E J w s = s\<lparr>locked := True, pcs := (pcs s)(w := Held img)\<rparr>"
        by (simp add: step_def)
      show ?thesis by (rule upd [where x = "Held img"]; (use st Ready False in \<open>simp\<close>))
    qed
  next
    case (Held img)
    with w have st: "step E J w s = s\<lparr>pcs := (pcs s)(w := Copied img (target s))\<rparr>"
      by (simp add: step_def)
    show ?thesis 
      by (rule upd [where x = "Copied img (target s)"]; (use st Held lk in \<open>simp\<close>))
  next
    case (Copied img r)
    with w have st: "step E J w s = s\<lparr>pcs := (pcs s)(w := Fetched img r (target s))\<rparr>"
      by (simp add: step_def)
    show ?thesis
      by (rule upd [where x = "Fetched img r (target s)"]; (use st Copied lk rv [of r] in \<open>simp\<close>))
  next
    case (Fetched img r t)
    with w have st: "step E J w s = s\<lparr>target := t + 1, pcs := (pcs s)(w := Stored img r)\<rparr>"
      by (simp add: step_def)
    show ?thesis
      by (rule upd [where x = "Stored img r"]; (use st Fetched lk rv [of r] fv [of t] in \<open>auto\<close>))
  next
    case (Stored img r)
    with w have st: "step E J w s = s\<lparr>locked := False, pcs := (pcs s)(w := Released img r)\<rparr>"
      by (simp add: step_def)
    show ?thesis
      by (rule upd [where x = "Released img r"]; (use st Stored lk rv [of r] in \<open>simp\<close>))
  next
    case (Released img r)
    let ?x = "pcs (step E J w s) w"
    have st: "pcs (step E J w s) = (pcs s)(w := ?x)" "locked (step E J w s) = locked s"
      "target (step E J w s) = target s" "reservation ?x = Some r" "counted ?x" "\<not> in_cs ?x"
      "fetched ?x = None"
      using Released w by (simp_all add: step_def)
    show ?thesis by (rule upd [where x = ?x]; (use st Released rv [of r] in \<open>simp\<close>))
  next
    case (Wrote r)
    let ?x = "pcs (step E J w s) w"
    have st: "pcs (step E J w s) = (pcs s)(w := ?x)" "locked (step E J w s) = locked s"
      "target (step E J w s) = target s" "reservation ?x = Some r" "counted ?x" "\<not> in_cs ?x"
      "fetched ?x = None"
      using Wrote w by (simp_all add: step_def)
    show ?thesis by (rule upd [where x = ?x]; (use st Wrote rv [of r] in \<open>simp\<close>))
  next
    case (Done r)
    then show ?thesis using assms w by (simp add: step_def)
  next
    case Skipped
    then show ?thesis using assms w by (simp add: step_def)
  next
    case (Failed e)
    then show ?thesis using assms w by (simp add: step_def)
  next
    case (Aborted r e)
    then show ?thesis using assms w by (simp add: step_def)
  qed
qed

subsection \<open>The data written by the workers\<close>

text \<open>
  The same scheme for the data invariant: one lemma for each part when one worker moves,
  then every step of the worker. The two steps that write an entry need the lock
  invariant: no other worker holds the index written.
\<close>

lemma length_flatten: "rect h w c img \<Longrightarrow> length (flatten img) = h * w * c"
proof -
  assume r: "rect h w c img"
  have row: "\<And>row. list_all (\<lambda>p. length p = c) row \<Longrightarrow> length (concat row) = length row * c"
    subgoal for row by (induction row) simp_all
    done
  have "list_all (\<lambda>row. length row = w \<and> list_all (\<lambda>p. length p = c) row) img
      \<Longrightarrow> length (concat (concat img)) = length img * w * c"
  proof (induction img)
    case Nil
    then show ?case by simp
  next
    case (Cons a img)
    then show ?case using row [of a] by (simp add: algebra_simps)
  qed
  with r show ?thesis by (simp add: rect_def flatten_def)
qed

lemma length_int32_bytes: "length (int32_bytes n) = 4"
  by (simp add: int32_bytes_def)

lemmas data_defs = images_loaded_def features_written_def labels_written_def
  outcomes_explained_def files_sized_def warnings_logged_def

lemma images_loaded_update:
  assumes "images_loaded E J s" and "pcs s' = (pcs s)(w := x)"
    and "\<forall>img. held_image x = Some img \<longrightarrow> load E J w = Inr img"
  shows "images_loaded E J s'"
  unfolding images_loaded_def
proof (intro allI impI)
  fix v img assume v: "v < length (files J)" "held_image (pcs s' v) = Some img"
  show "load E J v = Inr img"
  proof (cases "v = w")
    case True
    with v assms(2,3) show ?thesis by simp
  next
    case False
    with v assms(2) have "held_image (pcs s v) = Some img" by simp
    with assms(1) v(1) show ?thesis unfolding images_loaded_def by blast
  qed
qed

lemma outcomes_explained_update:
  assumes "outcomes_explained E J s" and "pcs s' = (pcs s)(w := x)"
    and "x = Skipped \<longrightarrow> (\<exists>sz. load E J w = Inl (ImageTooSmall sz))"
    and "\<forall>err. x = Failed err \<longrightarrow> load E J w = Inl err \<and> (\<forall>sz. err \<noteq> ImageTooSmall sz)"
    and "\<forall>r err. x = Aborted r err \<longrightarrow> (\<exists>img. load E J w = Inr img)"
  shows "outcomes_explained E J s'"
  unfolding outcomes_explained_def
proof (intro allI impI)
  fix v assume v: "v < length (files J)"
  show "(pcs s' v = Skipped \<longrightarrow> (\<exists>sz. load E J v = Inl (ImageTooSmall sz))) \<and>
        (\<forall>err. pcs s' v = Failed err \<longrightarrow>
           load E J v = Inl err \<and> (\<forall>sz. err \<noteq> ImageTooSmall sz)) \<and>
        (\<forall>r err. pcs s' v = Aborted r err \<longrightarrow> (\<exists>img. load E J v = Inr img))"
  proof (cases "v = w")
    case True
    with assms(2-5) show ?thesis by simp
  next
    case False
    with assms(2) have "pcs s' v = pcs s v" by simp
    with assms(1) v show ?thesis unfolding outcomes_explained_def by simp
  qed
qed

lemma features_written_update:
  assumes "features_written E J s" and "pcs s' = (pcs s)(w := x)"
    and "\<forall>r. x = Wrote r \<or> x = Done r \<longrightarrow>
        r < length (files J) \<and>
        (\<exists>img. load E J w = Inr img \<and> rect (image_size J) (image_size J) 3 img
           \<and> mm_get (fmap J) (features s') r = flatten img)"
    and "\<forall>v<length (files J). \<forall>r. v \<noteq> w \<and> (pcs s v = Wrote r \<or> pcs s v = Done r) \<longrightarrow>
        mm_get (fmap J) (features s') r = mm_get (fmap J) (features s) r"
  shows "features_written E J s'"
  unfolding features_written_def
proof (intro allI impI)
  fix v r assume v: "v < length (files J)" "pcs s' v = Wrote r \<or> pcs s' v = Done r"
  show "r < length (files J) \<and>
        (\<exists>img. load E J v = Inr img \<and> rect (image_size J) (image_size J) 3 img
           \<and> mm_get (fmap J) (features s') r = flatten img)"
  proof (cases "v = w")
    case True
    with v assms(2) have "x = Wrote r \<or> x = Done r" by simp
    with assms(3) True show ?thesis by blast
  next
    case False
    with assms(2) v have old: "pcs s v = Wrote r \<or> pcs s v = Done r" by simp
    with assms(4) v(1) False have "mm_get (fmap J) (features s') r = mm_get (fmap J) (features s) r"
      by blast
    moreover from assms(1) v(1) old have "r < length (files J) \<and>
        (\<exists>img. load E J v = Inr img \<and> rect (image_size J) (image_size J) 3 img
           \<and> mm_get (fmap J) (features s) r = flatten img)"
      unfolding features_written_def by blast
    ultimately show ?thesis by simp
  qed
qed

lemma labels_written_update:
  assumes "labels_written J s" and "pcs s' = (pcs s)(w := x)"
    and "\<forall>r. x = Done r \<longrightarrow> mm_get (lmap J) (labels s') r = int32_bytes (classes J ! w)"
    and "\<forall>v<length (files J). \<forall>r. v \<noteq> w \<and> pcs s v = Done r \<longrightarrow>
        mm_get (lmap J) (labels s') r = mm_get (lmap J) (labels s) r"
  shows "labels_written J s'"
  unfolding labels_written_def
proof (intro allI impI)
  fix v r assume v: "v < length (files J)" "pcs s' v = Done r"
  show "mm_get (lmap J) (labels s') r = int32_bytes (classes J ! v)"
  proof (cases "v = w")
    case True
    with v assms(2,3) show ?thesis by simp
  next
    case False
    with assms(2) v have old: "pcs s v = Done r" by simp
    with assms(4) v(1) False have "mm_get (lmap J) (labels s') r = mm_get (lmap J) (labels s) r"
      by blast
    moreover from assms(1) v(1) old have "mm_get (lmap J) (labels s) r = int32_bytes (classes J ! v)"
      unfolding labels_written_def by blast
    ultimately show ?thesis by simp
  qed
qed

lemma warnings_logged_same:
  assumes "warnings_logged E J s" and "pcs s' = (pcs s)(w := x)"
    and "warnings s' = warnings s" and "(x = Skipped) = (pcs s w = Skipped)"
  shows "warnings_logged E J s'"
proof -
  have "\<And>v. (pcs s' v = Skipped) = (pcs s v = Skipped)"
    using assms(2,4) by simp
  then show ?thesis using assms(1,3) unfolding warnings_logged_def by simp
qed

lemma warnings_logged_skip:
  assumes "warnings_logged E J s" and "pcs s' = (pcs s)(w := Skipped)" and "w < length (files J)"
    and "warnings s' = warnings s @ [(err, files J ! w)]" and "load E J w = Inl err"
    and "pcs s w \<noteq> Skipped"
  shows "warnings_logged E J s'"
proof -
  have "{(e, files J ! v) | v e. v < length (files J) \<and> pcs s' v = Skipped \<and> load E J v = Inl e}
      = insert (err, files J ! w)
         {(e, files J ! v) | v e. v < length (files J) \<and> pcs s v = Skipped \<and> load E J v = Inl e}"
    using assms(2,3,5,6) by (auto split: if_splits)
  then show ?thesis using assms(1,4) unfolding warnings_logged_def by simp
qed

lemma data_inv_pcs_update:
  assumes I: "data_inv E J s" and w: "w < length (files J)"
    and p: "pcs s' = (pcs s)(w := x)"
    and same: "features s' = features s" "labels s' = labels s" "warnings s' = warnings s"
    and c1: "\<forall>img. held_image x = Some img \<longrightarrow> load E J w = Inr img"
    and c2: "\<forall>r. x = Wrote r \<or> x = Done r \<longrightarrow>
        r < length (files J) \<and>
        (\<exists>img. load E J w = Inr img \<and> rect (image_size J) (image_size J) 3 img
           \<and> mm_get (fmap J) (features s) r = flatten img)"
    and c3: "\<forall>r. x = Done r \<longrightarrow> mm_get (lmap J) (labels s) r = int32_bytes (classes J ! w)"
    and c4: "(x = Skipped) = (pcs s w = Skipped)"
    and c5: "\<forall>err. x = Failed err \<longrightarrow> load E J w = Inl err \<and> (\<forall>sz. err \<noteq> ImageTooSmall sz)"
    and c6: "\<forall>r err. x = Aborted r err \<longrightarrow> (\<exists>img. load E J w = Inr img)"
  shows "data_inv E J s'"
proof -
  from I have A: "images_loaded E J s" and B: "features_written E J s" and C: "labels_written J s"
    and D: "outcomes_explained E J s" and F: "files_sized J s" and G: "warnings_logged E J s"
    by (simp_all add: data_inv_def)
  have a: "images_loaded E J s'" using A p c1 by (rule images_loaded_update)
  have b: "features_written E J s'"
    by (rule features_written_update [OF B p]) (use c2 same in simp_all)
  have c: "labels_written J s'"
    by (rule labels_written_update [OF C p]) (use c3 same in simp_all)
  have "x = Skipped \<longrightarrow> (\<exists>sz. load E J w = Inl (ImageTooSmall sz))"
    using D w c4 unfolding outcomes_explained_def by blast
  then have d: "outcomes_explained E J s'"
    by (rule outcomes_explained_update [OF D p _ c5 c6])
  have f: "files_sized J s'" using F same by (simp add: files_sized_def)
  have g: "warnings_logged E J s'" using G p same(3) c4 by (rule warnings_logged_same)
  from a b c d f g show ?thesis by (simp add: data_inv_def)
qed

lemma wf_job_sizes:
  assumes "wf_job J"
  shows "num_entries (fmap J) = length (files J)" and "num_entries (lmap J) = length (files J)"
    and "entry_bytes (fmap J) = image_size J * image_size J * 3" and "entry_bytes (lmap J) = 4"
    and "length (classes J) = length (files J)"
  using assms by (simp_all add: wf_job_def num_entries_def entry_bytes_def)

lemma entry_in_file:
  assumes "r < n" and "length content = off + n * e"
  shows "off + (r + 1) * e \<le> length content"
proof -
  from assms(1) have "(r + 1) * e \<le> n * e" by (intro mult_le_mono1) simp
  with assms(2) show ?thesis by simp
qed

lemma step_data_inv:
  assumes I: "data_inv E J s" and L: "lock_inv (length (files J)) s" and J: "wf_job J"
  shows "data_inv E J (step E J w s)"
proof (cases "w < length (files J)")
  case False
  then show ?thesis using I by (simp add: step_def)
next
  case w: True
  from I have A: "images_loaded E J s" and B: "features_written E J s" and C: "labels_written J s"
    and D: "outcomes_explained E J s" and F: "files_sized J s" and G: "warnings_logged E J s"
    by (simp_all add: data_inv_def)
  have img: "\<And>img. held_image (pcs s w) = Some img \<Longrightarrow> load E J w = Inr img"
    using A w unfolding images_loaded_def by blast
  note upd = data_inv_pcs_update [OF I w]
  show ?thesis
  proof (cases "pcs s w")
    case Start
    show ?thesis
    proof (cases "load E J w")
      case (Inr img)
      with Start w have st: "step E J w s = s\<lparr>pcs := (pcs s)(w := Ready img)\<rparr>"
        by (simp add: step_def)
      show ?thesis by (rule upd [where x = "Ready img"]; (use st Start Inr in \<open>simp\<close>))
    next
      case (Inl err)
      show ?thesis
      proof (cases "\<exists>sz. err = ImageTooSmall sz")
        case True
        with Start w Inl have st: "step E J w s =
            s\<lparr>warnings := warnings s @ [(err, files J ! w)], pcs := (pcs s)(w := Skipped)\<rparr>"
          by (auto simp: step_def)
        let ?s = "step E J w s"
        have p: "pcs ?s = (pcs s)(w := Skipped)" using st by simp
        have a: "images_loaded E J ?s" by (rule images_loaded_update [OF A p]) simp
        have b: "features_written E J ?s"
          by (rule features_written_update [OF B p]) (use st in simp_all)
        have c: "labels_written J ?s"
          by (rule labels_written_update [OF C p]) (use st in simp_all)
        have d: "outcomes_explained E J ?s"
          by (rule outcomes_explained_update [OF D p]) (use True Inl in auto)
        have f: "files_sized J ?s" using F st by (simp add: files_sized_def)
        have g: "warnings_logged E J ?s"
          by (rule warnings_logged_skip [OF G p w _ Inl]) (use st Start in simp_all)
        from a b c d f g show ?thesis by (simp add: data_inv_def)
      next
        case False
        with Start w Inl have st: "step E J w s = s\<lparr>pcs := (pcs s)(w := Failed err)\<rparr>"
          by (cases err; simp add: step_def)
        show ?thesis by (rule upd [where x = "Failed err"]; (use st Start Inl False in \<open>simp\<close>))
      qed
    qed
  next
    case (Ready img)
    show ?thesis
    proof (cases "locked s")
      case True
      with Ready w have "step E J w s = s" by (simp add: step_def)
      then show ?thesis using I by simp
    next
      case False
      with Ready w have st: "step E J w s = s\<lparr>locked := True, pcs := (pcs s)(w := Held img)\<rparr>"
        by (simp add: step_def)
      show ?thesis by (rule upd [where x = "Held img"]; (use st Ready img [of img] in \<open>simp\<close>))
    qed
  next
    case (Held img)
    with w have st: "step E J w s = s\<lparr>pcs := (pcs s)(w := Copied img (target s))\<rparr>"
      by (simp add: step_def)
    show ?thesis 
      by (rule upd [where x = "Copied img (target s)"]; (use st Held img [of img] in \<open>simp\<close>))
  next
    case (Copied img r)
    with w have st: "step E J w s = s\<lparr>pcs := (pcs s)(w := Fetched img r (target s))\<rparr>"
      by (simp add: step_def)
    show ?thesis
      by (rule upd [where x = "Fetched img r (target s)"]; (use st Copied img [of img] in \<open>simp\<close>))
  next
    case (Fetched img r t)
    with w have st: "step E J w s = s\<lparr>target := t + 1, pcs := (pcs s)(w := Stored img r)\<rparr>"
      by (simp add: step_def)
    show ?thesis
      by (rule upd [where x = "Stored img r"]; (use st Fetched img [of img] in \<open>simp\<close>))
  next
    case (Stored img r)
    with w have st: "step E J w s = s\<lparr>locked := False, pcs := (pcs s)(w := Released img r)\<rparr>"
      by (simp add: step_def)
    show ?thesis
      by (rule upd [where x = "Released img r"]; (use st Stored img [of img] in \<open>simp\<close>))
  next
    case (Released img r)
    have ld: "load E J w = Inr img" using img [of img] Released by simp
    show ?thesis
    proof (cases "num_entries (fmap J) \<le> r \<or> \<not> rect (image_size J) (image_size J) 3 img")
      case True
      let ?x = "pcs (step E J w s) w"
      have st: "pcs (step E J w s) = (pcs s)(w := ?x)" "features (step E J w s) = features s"
        "labels (step E J w s) = labels s" "warnings (step E J w s) = warnings s"
        "\<exists>err. ?x = Aborted r err"
        using Released w True by (auto simp: step_def)
      show ?thesis by (rule upd [where x = ?x]; (use st Released ld in \<open>auto\<close>))
    next
      case False
      let ?s = "step E J w s"
      from False Released w have st: "?s =
          s\<lparr>features := mm_set (fmap J) (features s) r (flatten img), pcs := (pcs s)(w := Wrote r)\<rparr>"
        by (simp add: step_def)
      have p: "pcs ?s = (pcs s)(w := Wrote r)" using st by simp
      from False have rN: "r < length (files J)" and rc: "rect (image_size J) (image_size J) 3 img"
        using wf_job_sizes(1) [OF J] by simp_all
      have len: "length (flatten img) = entry_bytes (fmap J)"
        using length_flatten [OF rc] wf_job_sizes(3) [OF J] by simp
      have bnd: "mm_offset (fmap J) + (r + 1) * entry_bytes (fmap J) \<le> length (features s)"
        using F rN by (intro entry_in_file [where n = "length (files J)"]) (simp_all add: files_sized_def)
      have a: "images_loaded E J ?s" by (rule images_loaded_update [OF A p]) simp
      have b: "features_written E J ?s"
      proof (rule features_written_update [OF B p])
        show "\<forall>r'. Wrote r = Wrote r' \<or> Wrote r = Done r' \<longrightarrow>
            r' < length (files J) \<and>
            (\<exists>img. load E J w = Inr img \<and> rect (image_size J) (image_size J) 3 img
               \<and> mm_get (fmap J) (features ?s) r' = flatten img)"
          using rN ld rc mm_get_set_same [OF bnd len] st by auto
        show "\<forall>v<length (files J). \<forall>r'. v \<noteq> w \<and> (pcs s v = Wrote r' \<or> pcs s v = Done r') \<longrightarrow>
            mm_get (fmap J) (features ?s) r' = mm_get (fmap J) (features s) r'"
        proof (intro allI impI)
          fix v r' assume v: "v < length (files J)" "v \<noteq> w \<and> (pcs s v = Wrote r' \<or> pcs s v = Done r')"
          then have "reservation (pcs s v) = Some r'" by auto
          moreover have "reservation (pcs s w) = Some r" using Released by simp
          ultimately have "r' \<noteq> r"
            using L v w unfolding lock_inv_def no_reuse_def by blast
          then show "mm_get (fmap J) (features ?s) r' = mm_get (fmap J) (features s) r'"
            using mm_get_set_other [OF bnd len] st by simp
        qed
      qed
      have c: "labels_written J ?s"
        by (rule labels_written_update [OF C p]) (use st in simp_all)
      have d: "outcomes_explained E J ?s"
        by (rule outcomes_explained_update [OF D p]) simp_all
      have f: "files_sized J ?s" using F st length_mm_set [OF bnd len] by (simp add: files_sized_def)
      have g: "warnings_logged E J ?s"
        by (rule warnings_logged_same [OF G p]) (use st Released in simp_all)
      from a b c d f g show ?thesis by (simp add: data_inv_def)
    qed
  next
    case (Wrote r)
    from B w Wrote have old: "r < length (files J) \<and>
        (\<exists>img. load E J w = Inr img \<and> rect (image_size J) (image_size J) 3 img
           \<and> mm_get (fmap J) (features s) r = flatten img)"
      unfolding features_written_def by blast
    show ?thesis
    proof (cases "length (classes J) \<le> w \<or> num_entries (lmap J) \<le> r")
      case True
      let ?x = "pcs (step E J w s) w"
      have st: "pcs (step E J w s) = (pcs s)(w := ?x)" "features (step E J w s) = features s"
        "labels (step E J w s) = labels s" "warnings (step E J w s) = warnings s"
        "\<exists>err. ?x = Aborted r err"
        using Wrote w True by (auto simp: step_def)
      show ?thesis by (rule upd [where x = ?x]; (use st Wrote old in \<open>auto\<close>))
    next
      case False
      let ?s = "step E J w s"
      from False Wrote w have st: "?s =
          s\<lparr>labels := mm_set (lmap J) (labels s) r (int32_bytes (classes J ! w)),
            pcs := (pcs s)(w := Done r)\<rparr>"
        by (simp add: step_def)
      have p: "pcs ?s = (pcs s)(w := Done r)" using st by simp
      from old have rN: "r < length (files J)" by simp
      have len: "length (int32_bytes (classes J ! w)) = entry_bytes (lmap J)"
        using length_int32_bytes wf_job_sizes(4) [OF J] by simp
      have bnd: "mm_offset (lmap J) + (r + 1) * entry_bytes (lmap J) \<le> length (labels s)"
        using F rN by (intro entry_in_file [where n = "length (files J)"]) (simp_all add: files_sized_def)
      have a: "images_loaded E J ?s" by (rule images_loaded_update [OF A p]) simp
      have b: "features_written E J ?s"
        by (rule features_written_update [OF B p]) (use st old in simp_all)
      have c: "labels_written J ?s"
      proof (rule labels_written_update [OF C p])
        show "\<forall>r'. Done r = Done r' \<longrightarrow>
            mm_get (lmap J) (labels ?s) r' = int32_bytes (classes J ! w)"
          using mm_get_set_same [OF bnd len] st by auto
        show "\<forall>v<length (files J). \<forall>r'. v \<noteq> w \<and> pcs s v = Done r' \<longrightarrow>
            mm_get (lmap J) (labels ?s) r' = mm_get (lmap J) (labels s) r'"
        proof (intro allI impI)
          fix v r' assume v: "v < length (files J)" "v \<noteq> w \<and> pcs s v = Done r'"
          then have "reservation (pcs s v) = Some r'" by auto
          moreover have "reservation (pcs s w) = Some r" using Wrote by simp
          ultimately have "r' \<noteq> r"
            using L v w unfolding lock_inv_def no_reuse_def by blast
          then show "mm_get (lmap J) (labels ?s) r' = mm_get (lmap J) (labels s) r'"
            using mm_get_set_other [OF bnd len] st by simp
        qed
      qed
      have d: "outcomes_explained E J ?s"
        by (rule outcomes_explained_update [OF D p]) simp_all
      have f: "files_sized J ?s" using F st length_mm_set [OF bnd len] by (simp add: files_sized_def)
      have g: "warnings_logged E J ?s"
        by (rule warnings_logged_same [OF G p]) (use st Wrote in simp_all)
      from a b c d f g show ?thesis by (simp add: data_inv_def)
    qed
  next
    case (Done r)
    then show ?thesis using I w by (simp add: step_def)
  next
    case Skipped
    then show ?thesis using I w by (simp add: step_def)
  next
    case (Failed e)
    then show ?thesis using I w by (simp add: step_def)
  next
    case (Aborted r e)
    then show ?thesis using I w by (simp add: step_def)
  qed
qed

subsection \<open>Reachable states\<close>

text \<open>
  The invariants hold when the workers start and after every schedule. Counting the
  workers that have stored their increment gives the counter, so the counter never
  passes the number of files.
\<close>

lemma counted_reservation: "counted p \<Longrightarrow> \<exists>r. reservation p = Some r"
  by (cases p) simp_all

lemma reserved_set:
  assumes "lock_inv N s"
  shows "{r. \<exists>w<N. counted (pcs s w) \<and> reservation (pcs s w) = Some r} = {..<target s}"
proof (intro set_eqI iffI)
  fix r assume "r \<in> {r. \<exists>w<N. counted (pcs s w) \<and> reservation (pcs s w) = Some r}"
  then obtain w where w: "w < N" "counted (pcs s w)" "reservation (pcs s w) = Some r" by blast
  from assms have "reserved_value N s" by (simp add: lock_inv_def)
  from this [unfolded reserved_value_def, rule_format, OF w(1) w(3)] w(2)
  show "r \<in> {..<target s}" by simp
next
  fix r assume "r \<in> {..<target s}"
  moreover from assms have "no_gaps N s" by (simp add: lock_inv_def)
  ultimately show "r \<in> {r. \<exists>w<N. counted (pcs s w) \<and> reservation (pcs s w) = Some r}"
    unfolding no_gaps_def by simp
qed

lemma counted_card:
  assumes "lock_inv N s"
  shows "card {w. w < N \<and> counted (pcs s w)} = target s"
proof -
  let ?W = "{w. w < N \<and> counted (pcs s w)}"
  let ?f = "\<lambda>w. the (reservation (pcs s w))"
  from assms have nr: "no_reuse N s" by (simp add: lock_inv_def)
  have inj: "inj_on ?f ?W"
  proof (rule inj_onI)
    fix a b assume a: "a \<in> ?W" and b: "b \<in> ?W" and eq: "?f a = ?f b"
    from a obtain r where ra: "reservation (pcs s a) = Some r"
      using counted_reservation by blast
    from b obtain r' where rb: "reservation (pcs s b) = Some r'"
      using counted_reservation by blast
    from eq ra rb have "r' = r" by simp
    with nr [unfolded no_reuse_def, rule_format, of a b r] a b ra rb
    show "a = b" by blast
  qed
  have "?f ` ?W = {r. \<exists>w<N. counted (pcs s w) \<and> reservation (pcs s w) = Some r}"
  proof (intro set_eqI iffI)
    fix r assume "r \<in> ?f ` ?W"
    then obtain w where w: "w < N" "counted (pcs s w)" "r = ?f w" by blast
    with counted_reservation [OF w(2)] show "r \<in> {r. \<exists>w<N. counted (pcs s w) \<and> reservation (pcs s w) = Some r}"
      by auto
  next
    fix r assume "r \<in> {r. \<exists>w<N. counted (pcs s w) \<and> reservation (pcs s w) = Some r}"
    then obtain w where w: "w < N" "counted (pcs s w)" "reservation (pcs s w) = Some r" by blast
    then have "w \<in> ?W" "?f w = r" by simp_all
    then show "r \<in> ?f ` ?W" by blast
  qed
  then have "?f ` ?W = {..<target s}" using reserved_set [OF assms] by simp
  then have "card (?f ` ?W) = target s" by simp
  then show ?thesis using card_image [OF inj] by simp
qed

lemma target_le:
  assumes "lock_inv N s"
  shows "target s \<le> N"
proof -
  have "card {w. w < N \<and> counted (pcs s w)} \<le> card {..<N}"
    by (rule card_mono) auto
  then show ?thesis using counted_card [OF assms] by simp
qed

lemma lock_inv_init: "lock_inv N (init_pstate ffile lfile)"
  by (simp add: lock_inv_def lock_defs init_pstate_def)

lemma wf_make_job: "length cls = length fls \<Longrightarrow> wf_job (make_job E fls cls sz ff lf)"
  by (simp add: wf_job_def make_job_def open_memmap_def Let_def)

lemma data_inv_init:
  "data_inv E (make_job E fls cls sz ff lf) (init_job_state E (make_job E fls cls sz ff lf))"
  by (simp add: data_inv_def data_defs init_job_state_def init_pstate_def make_job_def
      open_memmap_def Let_def entry_bytes_def)

lemma run_invs:
  assumes "wf_job J" and "lock_inv (length (files J)) s" and "data_inv E J s"
  shows "lock_inv (length (files J)) (run E J sched s) \<and> data_inv E J (run E J sched s)"
  using assms(2,3)
proof (induction sched arbitrary: s)
  case Nil
  then show ?case by (simp add: run_def)
next
  case (Cons w sched)
  have "lock_inv (length (files J)) (step E J w s)" using Cons.prems(1) by (rule step_lock_inv)
  moreover have "data_inv E J (step E J w s)"
    using Cons.prems(2,1) assms(1) by (rule step_data_inv)
  ultimately show ?case using Cons.IH [of "step E J w s"] by (simp add: run_def)
qed

lemma step_target_mono:
  assumes "lock_inv (length (files J)) s"
  shows "target s \<le> target (step E J w s)"
proof (cases "w < length (files J)")
  case False
  then show ?thesis by (simp add: step_def)
next
  case True
  show ?thesis
  proof (cases "pcs s w")
    case (Fetched img r t)
    from assms have "fetched_value (length (files J)) s" by (simp add: lock_inv_def)
    with True Fetched have "t = target s" unfolding fetched_value_def by auto
    with True Fetched show ?thesis by (simp add: step_def)
  next
    case Start
    then show ?thesis using True by (auto simp: step_def split: sum.splits error.splits)
  qed (use True in \<open>simp_all add: step_def\<close>)
qed

lemma run_target_mono:
  assumes "lock_inv (length (files J)) s"
  shows "target s \<le> target (run E J sched s)"
  using assms
proof (induction sched arbitrary: s)
  case Nil
  then show ?case by (simp add: run_def)
next
  case (Cons w sched)
  have "target s \<le> target (step E J w s)" using Cons.prems by (rule step_target_mono)
  also have "\<dots> \<le> target (run E J sched (step E J w s))"
    using step_lock_inv [OF Cons.prems] by (rule Cons.IH)
  finally show ?case by (simp add: run_def)
qed

subsection \<open>File discovery\<close>

lemma length_enumerate_labels:
  "length (concat (map (\<lambda>(i, group). map (\<lambda>_. i) group) (enumerate n groups))) = length (concat groups)"
  by (induction groups arbitrary: n) simp_all

lemma glob_image_files_length:
  "length (snd (glob_image_files glob data_dir)) = length (fst (glob_image_files glob data_dir))"
  by (simp add: glob_image_files_def Let_def length_enumerate_labels)


subsection \<open>Finalizing a mapped file\<close>



lemma resize_npy_file_never_shrinks:
  assumes "disk (mm_filename m) = Some content"
  shows "\<exists>disk' out content'. resize_npy_file hdr disk m new_shape = Inr (disk', out)
           \<and> disk' (mm_filename m) = Some content' \<and> length content \<le> length content'"
  using assms by (auto simp: resize_npy_file_def Let_def)




subsection \<open>The temporary files\<close>

lemma with_temporary_file_removes:
  assumes "with_temporary_file E W body = Some (outcome, W')"
  shows "fs W' (env_mkstemp E (fs W)) = None"
proof (cases "body (env_mkstemp E (fs W)) (W\<lparr>fs := (fs W)(env_mkstemp E (fs W) \<mapsto> [])\<rparr>)")
  case None
  with assms show ?thesis by (simp add: with_temporary_file_def Let_def)
next
  case (Some a)
  obtain out W2 where a: "a = (out, W2)" by (cases a)
  show ?thesis
  proof (cases "fs W2 (env_mkstemp E (fs W))")
    case None
    with assms Some a show ?thesis
      by (auto simp add: with_temporary_file_def Let_def os_remove_def)
  next
    case (Some c)
    with assms \<open>body _ _ = Some a\<close> a show ?thesis
      by (auto simp add: with_temporary_file_def Let_def os_remove_def)
  qed
qed

lemma with_temporary_file_keeps_absent:
  assumes "with_temporary_file E W body = Some (outcome, W')"
    and "\<And>out W2. body (env_mkstemp E (fs W)) (W\<lparr>fs := (fs W)(env_mkstemp E (fs W) \<mapsto> [])\<rparr>) = Some (out, W2)
           \<Longrightarrow> fs W2 f = None"
  shows "fs W' f = None"
proof (cases "body (env_mkstemp E (fs W)) (W\<lparr>fs := (fs W)(env_mkstemp E (fs W) \<mapsto> [])\<rparr>)")
  case None
  with assms(1) show ?thesis by (simp add: with_temporary_file_def Let_def)
next
  case (Some a)
  obtain out W2 where a: "a = (out, W2)" by (cases a)
  from assms(2) Some a have gone: "fs W2 f = None" by simp
  show ?thesis
  proof (cases "fs W2 (env_mkstemp E (fs W))")
    case None
    with assms(1) Some a gone show ?thesis
      by (auto simp add: with_temporary_file_def Let_def os_remove_def)
  next
    case (Some c)
    with assms(1) \<open>body _ _ = Some a\<close> a gone show ?thesis
      by (auto simp add: with_temporary_file_def Let_def os_remove_def)
  qed
qed

text \<open>
  C9. Once \<^verbatim>\<open>create_dataset\<close> has found a file and entered the \<^verbatim>\<open>with\<close> statement,
  whatever the schedule and whether it returns or raises (a worker's exception, a
  failure of the finalization or of the archive), neither of the two temporary files
  \<^verbatim>\<open>mkstemp\<close> created is on disk afterwards.
\<close>

theorem create_dataset_removes_temporary_files:
  assumes "fst (glob_image_files (env_glob E) data_dir) \<noteq> []"
    and "create_dataset E sched data_dir output_npz S W = Some (outcome, W')"
    and "features_file = env_mkstemp E (fs W)"
    and "labels_file = env_mkstemp E ((fs W)(features_file \<mapsto> []))"
  shows "fs W' features_file = None \<and> fs W' labels_file = None"
proof -
  let ?fls = "fst (glob_image_files (env_glob E) data_dir)"
  let ?cls = "snd (glob_image_files (env_glob E) data_dir)"
  let ?outer = "\<lambda>features_file W1. with_temporary_file E W1 (\<lambda>labels_file W2.
      dataset_body E sched ?fls ?cls S output_npz features_file labels_file W2)"
  have cd: "with_temporary_file E W ?outer = Some (outcome, W')"
    using assms(1,2) by (simp add: create_dataset_def Let_def)
  have a: "fs W' features_file = None"
    unfolding assms(3) using cd by (rule with_temporary_file_removes)
  have b: "fs W' labels_file = None"
  proof (rule with_temporary_file_keeps_absent [OF cd])
    fix out W2
    assume "?outer (env_mkstemp E (fs W)) (W\<lparr>fs := (fs W)(env_mkstemp E (fs W) \<mapsto> [])\<rparr>) = Some (out, W2)"
    then have "fs W2 (env_mkstemp E (fs (W\<lparr>fs := (fs W)(env_mkstemp E (fs W) \<mapsto> [])\<rparr>))) = None"
      by (rule with_temporary_file_removes)
    then show "fs W2 labels_file = None"
      unfolding assms(4) assms(3) by simp
  qed
  from a b show ?thesis ..
qed

end
